theory Spec2Isabelle
  imports Complex_Main "HOL-Library.Product_Lexorder" "HOL-Library.Multiset"
begin

section \<open>Data model of \<open>preprocess-master.py\<close>\<close>

text \<open>
  A cell of a data frame as \<open>pd.read_csv\<close> delivers it: a finite number, one of the
  two infinities (\<open>inf\<close> and \<open>-inf\<close> are read as such), a text that pandas' numeric
  parser rejects, or a missing value (\<open>NaN\<close>).
\<close>

datatype cell = Num real | PosInf | NegInf | Unparseable string | NaN

datatype error = KeyError "string list"

text \<open>
  One physical row. The three key columns that \<open>impute_data\<close> sorts and groups by are
  fields of their own: the grid identifier (an opaque ordered key), the date after
  \<open>pd.to_datetime(..., errors='coerce')\<close> (a day number, \<open>None\<close> for \<open>NaT\<close>) and the
  calendar month. They are columns of every table, and grid identifier and month are
  never missing: a table without one of them, or a row without a grid identifier, is
  outside this model. Every other column is looked up by name in \<open>cells\<close>; only the
  names listed in \<open>columns\<close> of the frame are columns of the table.
\<close>

record row =
  grid_id :: nat
  date :: "int option"
  month :: nat
  cells :: "string \<Rightarrow> cell"

record frame =
  columns :: "string list"
  rows :: "row list"

record stats =
  total_rows :: nat
  outliers_masked :: "string \<rightharpoonup> int"
  values_imputed :: "string \<rightharpoonup> int"
  final_null_count :: "string \<rightharpoonup> int"

definition IMPUTE_COLUMNS :: "string list" where
  "IMPUTE_COLUMNS = [''lst_celsius'', ''ndvi'', ''ndwi'', ''radar_vh'', ''rainfall_mm'']"

definition MIN_VALID_LST :: real where "MIN_VALID_LST = 10"
definition MAX_VALID_LST :: real where "MAX_VALID_LST = 60"
definition GEE_UNMASK_VALUE :: real where "GEE_UNMASK_VALUE = - 999"

subsection \<open>Column access\<close>

definition get_column :: "string \<Rightarrow> frame \<Rightarrow> cell list" where
  "get_column col df = map (\<lambda>r. cells r col) (rows df)"

text \<open>\<open>df[col] = series\<close>, for a series aligned with the rows of the frame.\<close>

definition set_column :: "string \<Rightarrow> cell list \<Rightarrow> frame \<Rightarrow> frame" where
  "set_column col vs df =
     df\<lparr>rows := map (\<lambda>(r, v). r\<lparr>cells := (cells r)(col := v)\<rparr>) (zip (rows df) vs)\<rparr>"

definition isna :: "cell \<Rightarrow> bool" where
  "isna c = (c = NaN)"

definition count_na :: "cell list \<Rightarrow> int" where
  "count_na xs = int (length (filter isna xs))"

section \<open>Arithmetic of 64-bit floats\<close>

text \<open>
  The columns are arrays of IEEE doubles, and numpy and pandas compute on them with the
  machine's operations. Their special values are modelled: a result whose magnitude
  reaches \<open>OVERFLOW\<close> (the largest double plus half a unit in its last place) is an
  infinity, the infinities follow the IEEE rules, and an undefined result (\<open>inf - inf\<close>,
  \<open>0 * inf\<close>, \<open>0 / 0\<close>) or an operation on NaN is NaN. A finite result is kept exact:
  rounding to the nearest double is not modelled. The second operand of a product or a
  quotient is always a finite number in this program (a difference of row positions,
  or 2), so it is a real.
\<close>

definition DBL_MAX :: real where
  "DBL_MAX = 2 ^ 1024 - 2 ^ 971"

definition OVERFLOW :: real where
  "OVERFLOW = 2 ^ 1024 - 2 ^ 970"

definition fl :: "real \<Rightarrow> cell" where
  "fl r = (if OVERFLOW \<le> r then PosInf else if r \<le> - OVERFLOW then NegInf else Num r)"

fun is_number :: "cell \<Rightarrow> bool" where
  "is_number (Num v) = True"
| "is_number PosInf = True"
| "is_number NegInf = True"
| "is_number c = False"

fun fadd :: "cell \<Rightarrow> cell \<Rightarrow> cell" where
  "fadd (Num a) (Num b) = fl (a + b)"
| "fadd (Num a) PosInf = PosInf"
| "fadd (Num a) NegInf = NegInf"
| "fadd PosInf (Num b) = PosInf"
| "fadd PosInf PosInf = PosInf"
| "fadd NegInf (Num b) = NegInf"
| "fadd NegInf NegInf = NegInf"
| "fadd x y = NaN"

fun fneg :: "cell \<Rightarrow> cell" where
  "fneg (Num a) = Num (- a)"
| "fneg PosInf = NegInf"
| "fneg NegInf = PosInf"
| "fneg c = NaN"

definition fsub :: "cell \<Rightarrow> cell \<Rightarrow> cell" where
  "fsub x y = fadd x (fneg y)"

fun fmul :: "cell \<Rightarrow> real \<Rightarrow> cell" where
  "fmul (Num a) r = fl (a * r)"
| "fmul PosInf r = (if 0 < r then PosInf else if r < 0 then NegInf else NaN)"
| "fmul NegInf r = (if 0 < r then NegInf else if r < 0 then PosInf else NaN)"
| "fmul c r = NaN"

fun fdiv :: "cell \<Rightarrow> real \<Rightarrow> cell" where
  "fdiv (Num a) d =
     (if d = 0 then (if 0 < a then PosInf else if a < 0 then NegInf else NaN)
      else fl (a / d))"
| "fdiv PosInf d = (if d < 0 then NegInf else PosInf)"
| "fdiv NegInf d = (if d < 0 then PosInf else NegInf)"
| "fdiv c d = NaN"

section \<open>The Masker: \<open>clean_and_mask\<close>\<close>

text \<open>\<open>pd.to_numeric(series, errors="coerce")\<close>, cell by cell.\<close>

fun to_numeric :: "cell \<Rightarrow> cell" where
  "to_numeric (Unparseable s) = NaN"
| "to_numeric c = c"

text \<open>
  The predicate \<open>invalid\<close> on a coerced cell; comparisons with \<open>NaN\<close> are false, and an
  infinity is outside the temperature range.
\<close>

fun invalid :: "string \<Rightarrow> cell \<Rightarrow> bool" where
  "invalid col (Num v) =
     (if col = ''lst_celsius''
      then v = GEE_UNMASK_VALUE \<or> v < MIN_VALID_LST \<or> v > MAX_VALID_LST
      else v = GEE_UNMASK_VALUE)"
| "invalid col PosInf = (col = ''lst_celsius'')"
| "invalid col NegInf = (col = ''lst_celsius'')"
| "invalid col c = False"

definition mask_column :: "string \<Rightarrow> frame \<Rightarrow> frame \<times> int" where
  "mask_column col df =
     (let series = map to_numeric (get_column col df);
          n = int (length (filter (invalid col) series))
      in (set_column col (map (\<lambda>c. if invalid col c then NaN else c) series) df, n))"

fun mask_loop :: "string list \<Rightarrow> frame \<Rightarrow> (string \<rightharpoonup> int) \<Rightarrow> frame \<times> (string \<rightharpoonup> int)" where
  "mask_loop [] df mask_stats = (df, mask_stats)"
| "mask_loop (col # cs) df mask_stats =
     (if col \<notin> set (columns df) then mask_loop cs df mask_stats
      else (let (df', n) = mask_column col df
            in mask_loop cs df' (mask_stats(col \<mapsto> n))))"

definition clean_and_mask :: "frame \<Rightarrow> frame \<times> (string \<rightharpoonup> int)" where
  "clean_and_mask df = mask_loop IMPUTE_COLUMNS df Map.empty"

section \<open>The Imputer: \<open>impute_data\<close>\<close>

subsection \<open>Sorting and grouping\<close>

text \<open>
  \<open>df.sort_values(['grid_id', 'date'])\<close>: a stable sort by grid identifier, then date,
  with \<open>NaT\<close> dates last.
\<close>

definition date_key :: "int option \<Rightarrow> nat \<times> int" where
  "date_key d = (case d of Some t \<Rightarrow> (0, t) | None \<Rightarrow> (1, 0))"

definition sort_key_row :: "row \<Rightarrow> nat \<times> nat \<times> int" where
  "sort_key_row r = (grid_id r, date_key (date r))"

definition sort_values :: "frame \<Rightarrow> frame" where
  "sort_values df = df\<lparr>rows := sort_key sort_key_row (rows df)\<rparr>"

text \<open>
  \<open>groupby(key)[col].transform(f)\<close>: every row receives the entry of \<open>f\<close> applied to
  the series of its group (in row order) at the row's position within the group.
\<close>

definition group_of :: "'k list \<Rightarrow> 'a list \<Rightarrow> 'k \<Rightarrow> 'a list" where
  "group_of keys xs k = map snd (filter (\<lambda>(k', x). k' = k) (zip keys xs))"

definition rank_in_group :: "'k list \<Rightarrow> nat \<Rightarrow> nat" where
  "rank_in_group keys i = length (filter (\<lambda>k. k = keys ! i) (take i keys))"

definition groupby_transform :: "'k list \<Rightarrow> ('a list \<Rightarrow> 'b list) \<Rightarrow> 'a list \<Rightarrow> 'b list" where
  "groupby_transform keys f xs =
     map (\<lambda>i. f (group_of keys xs (keys ! i)) ! rank_in_group keys i) [0..<length xs]"

subsection \<open>Stage 1: \<open>interpolate(method='linear', limit_direction='both')\<close>\<close>

text \<open>
  The inner step of \<open>np.interp\<close> between two consecutive points \<open>(x0, y0)\<close> and
  \<open>(x1, y1)\<close>: \<open>slope * (x - x0) + y0\<close> with \<open>slope = (y1 - y0) / (x1 - x0)\<close>; when that
  is NaN the same line is evaluated from the right end, and when this is NaN too and
  both ends are equal (two infinities of one sign) the result is that value.
\<close>

definition lerp :: "nat \<Rightarrow> nat \<times> cell \<Rightarrow> nat \<times> cell \<Rightarrow> cell" where
  "lerp x p q =
     (let slope = fdiv (fsub (snd q) (snd p)) (real (fst q) - real (fst p));
          r = fadd (fmul slope (real x - real (fst p))) (snd p)
      in if r \<noteq> NaN then r
         else (let r' = fadd (fmul slope (real x - real (fst q))) (snd q)
               in if r' = NaN \<and> snd p = snd q then snd p else r'))"

text \<open>
  \<open>np.interp(x, xp, fp)\<close> on a non-empty list of points with increasing abscissae,
  given as its first point and the rest: constant outside the points, \<open>lerp\<close> between
  two consecutive ones.
\<close>

fun np_interp :: "nat \<Rightarrow> nat \<times> cell \<Rightarrow> (nat \<times> cell) list \<Rightarrow> cell" where
  "np_interp x (x0, y0) [] = y0"
| "np_interp x (x0, y0) ((x1, y1) # ps) =
     (if x \<le> x0 then y0
      else if x < x1 then lerp x (x0, y0) (x1, y1)
      else np_interp x (x1, y1) ps)"

text \<open>The positions and values of the non-missing numbers of a series.\<close>

definition valid_points :: "cell list \<Rightarrow> (nat \<times> cell) list" where
  "valid_points xs =
     List.map_filter (\<lambda>i. if is_number (xs ! i) then Some (i, xs ! i) else None)
       [0..<length xs]"

text \<open>
  The linear method ignores the index and treats the values as equally spaced: every
  missing entry is interpolated at its position over the valid positions. A series
  with no valid value is returned as it is.
\<close>

definition interpolate :: "cell list \<Rightarrow> cell list" where
  "interpolate xs =
     (case valid_points xs of
        [] \<Rightarrow> xs
      | p # ps \<Rightarrow> map (\<lambda>i. if isna (xs ! i) then np_interp i p ps else xs ! i)
                      [0..<length xs])"

subsection \<open>Stages 2 and 3: medians\<close>

text \<open>The order of the numbers: \<open>-inf\<close>, the finite numbers, \<open>inf\<close>.\<close>

fun float_key :: "cell \<Rightarrow> int \<times> real" where
  "float_key NegInf = (- 1, 0)"
| "float_key (Num v) = (0, v)"
| "float_key PosInf = (1, 0)"
| "float_key c = (2, 0)"

text \<open>
  \<open>Series.median()\<close> and the grouped \<open>median\<close>: missing values are skipped, the rest is
  put in ascending order; the middle entry for an odd count, \<open>(a + b) / 2\<close> of the two
  middle entries for an even count, \<open>NaN\<close> when nothing is left.
\<close>

definition median :: "cell list \<Rightarrow> cell" where
  "median xs =
     (let vs = sort_key float_key (filter is_number xs); n = length vs
      in if n = 0 then NaN
         else if odd n then vs ! (n div 2)
         else fdiv (fadd (vs ! (n div 2 - 1)) (vs ! (n div 2))) 2)"

text \<open>\<open>series.fillna(other)\<close> with an aligned series, and with a scalar.\<close>

definition fillna :: "cell list \<Rightarrow> cell list \<Rightarrow> cell list" where
  "fillna xs ys = map (\<lambda>(x, y). if isna x then y else x) (zip xs ys)"

definition fillna_value :: "cell list \<Rightarrow> cell \<Rightarrow> cell list" where
  "fillna_value xs v = map (\<lambda>x. if isna x then v else x) xs"

text \<open>The three stages on one column, given the key columns of the same rows.\<close>

definition interpolate_groups :: "nat list \<Rightarrow> cell list \<Rightarrow> cell list" where
  "interpolate_groups grids xs = groupby_transform grids interpolate xs"

definition seasonal_fill :: "nat list \<Rightarrow> cell list \<Rightarrow> cell list" where
  "seasonal_fill months xs =
     (let seasonal_medians =
            groupby_transform months (\<lambda>g. replicate (length g) (median g)) xs
      in fillna xs seasonal_medians)"

definition global_fill :: "cell list \<Rightarrow> cell list" where
  "global_fill xs = fillna_value xs (median xs)"

definition stage1 :: "string \<Rightarrow> frame \<Rightarrow> frame" where
  "stage1 col df =
     set_column col (interpolate_groups (map grid_id (rows df)) (get_column col df)) df"

definition stage2 :: "string \<Rightarrow> frame \<Rightarrow> frame" where
  "stage2 col df =
     set_column col (seasonal_fill (map month (rows df)) (get_column col df)) df"

definition stage3 :: "string \<Rightarrow> frame \<Rightarrow> frame" where
  "stage3 col df = set_column col (global_fill (get_column col df)) df"

text \<open>The body of the loop of \<open>impute_data\<close> for one present column.\<close>

definition impute_column :: "string \<Rightarrow> frame \<Rightarrow> frame \<times> int" where
  "impute_column col df =
     (let initial_nan = count_na (get_column col df);
          df' = stage3 col (stage2 col (stage1 col df))
      in (df', initial_nan - count_na (get_column col df')))"

fun impute_loop :: "string list \<Rightarrow> frame \<Rightarrow> (string \<rightharpoonup> int) \<Rightarrow> frame \<times> (string \<rightharpoonup> int)" where
  "impute_loop [] df impute_counts = (df, impute_counts)"
| "impute_loop (col # cs) df impute_counts =
     (if col \<notin> set (columns df) then impute_loop cs df impute_counts
      else (let (df', n) = impute_column col df
            in impute_loop cs df' (impute_counts(col \<mapsto> n))))"

definition impute_data :: "frame \<Rightarrow> frame \<times> (string \<rightharpoonup> int)" where
  "impute_data df = impute_loop IMPUTE_COLUMNS (sort_values df) Map.empty"

section \<open>Orchestration: \<open>preprocess_file\<close>\<close>

text \<open>
  The frame is the table after reading, column-name normalisation and date parsing.
  \<open>df[IMPUTE_COLUMNS]\<close> raises \<open>KeyError\<close>, naming the absent columns, unless every
  covariate is a column of the frame. The \<open>source\<close> entry of the report and the writing
  of the output file are not modelled.
\<close>

definition preprocess_file :: "frame \<Rightarrow> error + frame \<times> stats" where
  "preprocess_file df0 =
     (let (df1, mask_stats) = clean_and_mask df0;
          (df, impute_stats) = impute_data df1;
          absent = filter (\<lambda>c. c \<notin> set (columns df)) IMPUTE_COLUMNS
      in if absent \<noteq> [] then Inl (KeyError absent)
         else Inr (df, \<lparr>total_rows = length (rows df),
                        outliers_masked = mask_stats,
                        values_imputed = impute_stats,
                        final_null_count =
                          map_of (map (\<lambda>c. (c, count_na (get_column c df))) IMPUTE_COLUMNS)\<rparr>))"

section \<open>Derived notions used in the statements\<close>

subsection \<open>The effect of the Masker on a cell and on a row\<close>

text \<open>What \<open>clean_and_mask\<close> does to one cell of a present covariate column.\<close>

definition mask_cell :: "string \<Rightarrow> cell \<Rightarrow> cell" where
  "mask_cell col c = (if invalid col (to_numeric c) then NaN else to_numeric c)"

definition mask_row :: "string \<Rightarrow> row \<Rightarrow> row" where
  "mask_row col r = r\<lparr>cells := (cells r)(col := mask_cell col (cells r col))\<rparr>"

text \<open>The covariates that are columns of a table, in the order of the loops.\<close>

definition present_covariates :: "frame \<Rightarrow> string list" where
  "present_covariates df = filter (\<lambda>c. c \<in> set (columns df)) IMPUTE_COLUMNS"

text \<open>
  A table with no sentinel value and no out-of-range temperature in its covariate
  columns, and a table whose covariate cells are all numbers or missing.
\<close>

definition no_invalid_values :: "frame \<Rightarrow> bool" where
  "no_invalid_values df =
     list_all (\<lambda>col. list_all (\<lambda>c. \<not> invalid col c) (get_column col df))
       (present_covariates df)"

definition numeric_covariates :: "frame \<Rightarrow> bool" where
  "numeric_covariates df =
     list_all (\<lambda>col. list_all (\<lambda>c. to_numeric c = c) (get_column col df))
       (present_covariates df)"

text \<open>The temperature bound of the cleaned table.\<close>

fun temp_ok :: "cell \<Rightarrow> bool" where
  "temp_ok NaN = True"
| "temp_ok (Num v) = (MIN_VALID_LST \<le> v \<and> v \<le> MAX_VALID_LST \<and> v \<noteq> GEE_UNMASK_VALUE)"
| "temp_ok c = False"

subsection \<open>Series of a column\<close>

text \<open>The three stages in sequence on one column.\<close>

definition impute_series :: "nat list \<Rightarrow> nat list \<Rightarrow> cell list \<Rightarrow> cell list" where
  "impute_series grids months xs =
     global_fill (seasonal_fill months (interpolate_groups grids xs))"




text \<open>The finite numbers of a series.\<close>

definition numbers :: "cell list \<Rightarrow> real list" where
  "numbers xs = [v. Num v \<leftarrow> xs]"

subsection \<open>Ranges of finite numbers\<close>

text \<open>
  A cell is missing or a finite number between two bounds. Bounds are safe when the sum
  and the difference of two numbers between them cannot overflow; every number of
  magnitude up to half the largest double lies between safe bounds.
\<close>

fun in_range :: "real \<Rightarrow> real \<Rightarrow> cell \<Rightarrow> bool" where
  "in_range lo hi NaN = True"
| "in_range lo hi (Num v) = (lo \<le> v \<and> v \<le> hi)"
| "in_range lo hi c = False"

definition safe_bounds :: "real \<Rightarrow> real \<Rightarrow> bool" where
  "safe_bounds lo hi = (- OVERFLOW < 2 * lo \<and> lo \<le> hi \<and> 2 * hi < OVERFLOW)"

definition SAFE_MAX :: real where
  "SAFE_MAX = DBL_MAX / 2"

definition safe_column :: "cell list \<Rightarrow> bool" where
  "safe_column xs = list_all (in_range (- SAFE_MAX) SAFE_MAX) xs"

subsection \<open>What a stage may do to a column\<close>

text \<open>
  A stage takes a column \<open>xs\<close> to \<open>ys\<close> and keeps every cell that is not missing; it
  does so within bounds when moreover a cell that was missing is afterwards still
  missing or a finite number between the bounds.
\<close>

definition keeps :: "cell list \<Rightarrow> cell list \<Rightarrow> bool" where
  "keeps xs ys = list_all2 (\<lambda>x y. if x = NaN then True else y = x) xs ys"

definition fills_within :: "real \<Rightarrow> real \<Rightarrow> cell \<Rightarrow> cell \<Rightarrow> bool" where
  "fills_within lo hi x y = (if x = NaN then in_range lo hi y else y = x)"

definition stage_ok :: "real \<Rightarrow> real \<Rightarrow> cell list \<Rightarrow> cell list \<Rightarrow> bool" where
  "stage_ok lo hi xs ys = list_all2 (fills_within lo hi) xs ys"

subsection \<open>The spec's interpolation in time\<close>


subsection \<open>The spec's median\<close>

text \<open>
  The median in the spec's words, without reference to a sorting procedure: among the
  non-missing values \<open>vs\<close>, the value of rank \<open>k\<close> (counting from 0 in ascending order)
  is a member with at most \<open>k\<close> values below it and at most \<open>length vs - 1 - k\<close> values
  above it. The median of an odd number of values is the value of middle rank; of an
  even number, the midpoint average of the two values of middle rank; of no value, it
  is undefined (missing).
\<close>

definition below :: "cell list \<Rightarrow> cell \<Rightarrow> nat" where
  "below vs x = length (filter (\<lambda>v. float_key v < float_key x) vs)"

definition above :: "cell list \<Rightarrow> cell \<Rightarrow> nat" where
  "above vs x = length (filter (\<lambda>v. float_key x < float_key v) vs)"

definition has_rank :: "cell list \<Rightarrow> nat \<Rightarrow> cell \<Rightarrow> bool" where
  "has_rank vs k x = (x \<in> set vs \<and> below vs x \<le> k \<and> above vs x + k + 1 \<le> length vs)"

definition midpoint_average :: "cell \<Rightarrow> cell \<Rightarrow> cell" where
  "midpoint_average a b = fdiv (fadd a b) 2"

definition is_median :: "cell list \<Rightarrow> cell \<Rightarrow> bool" where
  "is_median vs m =
     (if vs = [] then m = NaN
      else if odd (length vs) then has_rank vs (length vs div 2) m
      else list_ex (\<lambda>a. list_ex (\<lambda>b.
             has_rank vs (length vs div 2 - 1) a \<and> has_rank vs (length vs div 2) b \<and>
             m = midpoint_average a b) vs) vs)"

subsection \<open>Concrete tables\<close>

text \<open>A table whose only covariate cell is a text that is not a number.\<close>

definition unparseable_table :: frame where
  "unparseable_table =
     \<lparr>columns = [''ndvi''],
      rows = [\<lparr>grid_id = 1, date = Some 0, month = 1,
               cells = (\<lambda>c. Unparseable ''abc'')\<rparr>]\<rparr>"

text \<open>A table with two covariates and nothing to mask.\<close>

definition clean_table :: frame where
  "clean_table =
     \<lparr>columns = [''lst_celsius'', ''ndvi'', ''slope''],
      rows = [\<lparr>grid_id = 1, date = Some 0, month = 1,
               cells = (\<lambda>c. if c = ''lst_celsius'' then Num 25 else Num 3)\<rparr>,
              \<lparr>grid_id = 1, date = Some 31, month = 2,
               cells = (\<lambda>c. if c = ''slope'' then Unparseable ''steep'' else NaN)\<rparr>]\<rparr>"

text \<open>A table without the \<open>ndvi\<close> column.\<close>

definition table_without_ndvi :: frame where
  "table_without_ndvi =
     \<lparr>columns = [''lst_celsius'', ''ndwi'', ''radar_vh'', ''rainfall_mm'', ''slope''],
      rows = [\<lparr>grid_id = 1, date = Some 0, month = 1,
               cells = (\<lambda>c. if c = ''slope'' then Num 3 else Num 20)\<rparr>]\<rparr>"

text \<open>
  A table without the \<open>ndwi\<close> column whose \<open>ndvi\<close> column holds only the sentinel, so
  that \<open>ndvi\<close> is entirely missing after masking.
\<close>

definition table_without_ndwi :: frame where
  "table_without_ndwi =
     \<lparr>columns = [''lst_celsius'', ''ndvi'', ''radar_vh'', ''rainfall_mm''],
      rows = [\<lparr>grid_id = 1, date = Some 0, month = 1,
               cells = (\<lambda>c. if c = ''ndvi'' then Num (- 999) else Num 20)\<rparr>,
              \<lparr>grid_id = 1, date = Some 31, month = 2,
               cells = (\<lambda>c. if c = ''ndvi'' then Num (- 999) else Num 21)\<rparr>]\<rparr>"

text \<open>
  A table with all five covariates, given out of order: grid 1 has the temperatures
  20, -999 (the sentinel) and 24 in three consecutive months, grid 2 has no
  temperature; every \<open>ndvi\<close> value is the sentinel.
\<close>

definition obs :: "cell \<Rightarrow> cell \<Rightarrow> string \<Rightarrow> cell" where
  "obs t s = (\<lambda>c. if c = ''lst_celsius'' then t
                   else if c = ''slope'' then s
                   else if c = ''ndvi'' then Num (- 999)
                   else Num 1)"

definition sample_table :: frame where
  "sample_table =
     \<lparr>columns = [''lst_celsius'', ''ndvi'', ''ndwi'', ''radar_vh'', ''rainfall_mm'', ''slope''],
      rows = [\<lparr>grid_id = 2, date = Some 0, month = 1, cells = obs NaN (Num 7)\<rparr>,
              \<lparr>grid_id = 1, date = Some 59, month = 3, cells = obs (Num 24) (Num 5)\<rparr>,
              \<lparr>grid_id = 1, date = Some 31, month = 2, cells = obs (Num (- 999)) (Num 5)\<rparr>,
              \<lparr>grid_id = 1, date = Some 0, month = 1, cells = obs (Num 20) (Num 5)\<rparr>]\<rparr>"



text \<open>
  Three grids in one month: two hold the vegetation indices \<open>2^1023\<close> (about \<open>9e307\<close>) and
  \<open>3 * 2^1022\<close> (about \<open>1.3e308\<close>), both of them doubles, the third none.
\<close>

definition overflow_table :: frame where
  "overflow_table =
     \<lparr>columns = [''ndvi''],
      rows = [\<lparr>grid_id = 1, date = Some 0, month = 1, cells = (\<lambda>c. Num (2 ^ 1023))\<rparr>,
              \<lparr>grid_id = 2, date = Some 0, month = 1, cells = (\<lambda>c. Num (3 * 2 ^ 1022))\<rparr>,
              \<lparr>grid_id = 3, date = Some 0, month = 1, cells = (\<lambda>c. NaN)\<rparr>]\<rparr>"


section \<open>Columns of a frame\<close>

lemma columns_set_column: "columns (set_column col vs df) = columns df"
  by (simp add: set_column_def)

lemma length_rows_set_column:
  "length vs = length (rows df) \<Longrightarrow> length (rows (set_column col vs df)) = length (rows df)"
  by (simp add: set_column_def)

lemma get_set_column_same:
  "length vs = length (rows df) \<Longrightarrow> get_column col (set_column col vs df) = vs"
  by (auto simp: set_column_def get_column_def intro!: nth_equalityI)

lemma get_set_column_other:
  "length vs = length (rows df) \<Longrightarrow> c \<noteq> col \<Longrightarrow>
   get_column c (set_column col vs df) = get_column c df"
  by (auto simp: set_column_def get_column_def intro!: nth_equalityI)

lemma keys_set_column:
  assumes "length vs = length (rows df)"
  shows "map grid_id (rows (set_column col vs df)) = map grid_id (rows df)"
    and "map date (rows (set_column col vs df)) = map date (rows df)"
    and "map month (rows (set_column col vs df)) = map month (rows df)"
  using assms by (auto simp: set_column_def intro!: nth_equalityI)

lemma length_get_column: "length (get_column col df) = length (rows df)"
  by (simp add: get_column_def)

lemma length_groupby_transform: "length (groupby_transform keys f xs) = length xs"
  by (simp add: groupby_transform_def)

lemma length_fillna_value: "length (fillna_value xs v) = length xs"
  by (simp add: fillna_value_def)

lemma length_fillna: "length ys = length xs \<Longrightarrow> length (fillna xs ys) = length xs"
  by (simp add: fillna_def)

section \<open>Grouped transforms\<close>

lemma length_group_of:
  "length xs = length keys \<Longrightarrow>
   length (group_of keys xs k) = length (filter (\<lambda>k'. k' = k) keys)"
proof (induction keys arbitrary: xs)
  case Nil
  then show ?case by (simp add: group_of_def)
next
  case (Cons a keys)
  then obtain x xs' where "xs = x # xs'" by (cases xs) auto
  with Cons show ?case by (auto simp: group_of_def)
qed

lemma group_of_append:
  "length xs = length keys \<Longrightarrow>
   group_of (keys @ keys') (xs @ xs') k = group_of keys xs k @ group_of keys' xs' k"
  by (simp add: group_of_def)

lemma group_of_split:
  assumes "i < length keys" "length xs = length keys"
  shows "group_of keys xs (keys ! i) =
         group_of (take i keys) (take i xs) (keys ! i) @ xs ! i #
         group_of (drop (Suc i) keys) (drop (Suc i) xs) (keys ! i)"
proof -
  have k: "keys = take i keys @ keys ! i # drop (Suc i) keys"
    using assms by (simp add: id_take_nth_drop)
  have x: "xs = take i xs @ xs ! i # drop (Suc i) xs"
    using assms by (simp add: id_take_nth_drop)
  have "group_of keys xs (keys ! i) =
        group_of (take i keys @ (keys ! i # drop (Suc i) keys))
                 (take i xs @ (xs ! i # drop (Suc i) xs)) (keys ! i)"
    using k x by simp
  also have "\<dots> = group_of (take i keys) (take i xs) (keys ! i) @
                   group_of (keys ! i # drop (Suc i) keys) (xs ! i # drop (Suc i) xs) (keys ! i)"
    using assms by (intro group_of_append) simp
  finally show ?thesis by (simp add: group_of_def)
qed

lemma rank_in_group_less:
  assumes "i < length keys" "length xs = length keys"
  shows "rank_in_group keys i < length (group_of keys xs (keys ! i))"
  using assms by (simp add: group_of_split [OF assms] rank_in_group_def length_group_of)

lemma group_of_nth_rank:
  assumes "i < length keys" "length xs = length keys"
  shows "group_of keys xs (keys ! i) ! rank_in_group keys i = xs ! i"
proof -
  have "length (group_of (take i keys) (take i xs) (keys ! i)) = rank_in_group keys i"
    using assms by (simp add: length_group_of rank_in_group_def)
  then show ?thesis
    by (simp add: group_of_split [OF assms] nth_append)
qed

lemma set_group_of: "set (group_of keys xs k) \<subseteq> set xs"
  by (auto simp: group_of_def dest: set_zip_rightD)

lemma groupby_transform_nth:
  "i < length xs \<Longrightarrow>
   groupby_transform keys f xs ! i = f (group_of keys xs (keys ! i)) ! rank_in_group keys i"
  by (simp add: groupby_transform_def)







section \<open>Float arithmetic on finite numbers\<close>

lemma OVERFLOW_big: "2 ^ 1000 < OVERFLOW"
  by (simp add: OVERFLOW_def)

lemma fl_finite: "- OVERFLOW < r \<Longrightarrow> r < OVERFLOW \<Longrightarrow> fl r = Num r"
  by (simp add: fl_def)

lemma fl_abs: "\<bar>r\<bar> < OVERFLOW \<Longrightarrow> fl r = Num r"
  by (intro fl_finite) linarith+

lemma fl_small: "\<bar>r\<bar> \<le> 2 ^ 1000 \<Longrightarrow> fl r = Num r"
  using OVERFLOW_big by (intro fl_finite) linarith+

lemma fl_not_NaN: "fl r \<noteq> NaN"
  by (simp add: fl_def)

lemma in_range_cases:
  "in_range lo hi c \<longleftrightarrow> c = NaN \<or> (\<exists>v. c = Num v \<and> lo \<le> v \<and> v \<le> hi)"
  by (cases c) auto

lemma fadd_in_range:
  assumes "safe_bounds lo hi" "lo \<le> a" "a \<le> hi" "lo \<le> b" "b \<le> hi"
  shows "fadd (Num a) (Num b) = Num (a + b)"
  using assms by (simp add: safe_bounds_def fl_finite)

lemma fsub_in_range:
  assumes "safe_bounds lo hi" "lo \<le> a" "a \<le> hi" "lo \<le> b" "b \<le> hi"
  shows "fsub (Num b) (Num a) = Num (b - a)"
  using assms by (simp add: fsub_def safe_bounds_def fl_finite)

lemma lerp_finite:
  assumes s: "safe_bounds lo hi" and y: "lo \<le> y0" "y0 \<le> hi" "lo \<le> y1" "y1 \<le> hi"
    and x: "x0 < x" "x < x1"
  shows "lerp x (x0, Num y0) (x1, Num y1) =
           Num (y0 + (y1 - y0) / (real x1 - real x0) * (real x - real x0)) \<and>
         lo \<le> y0 + (y1 - y0) / (real x1 - real x0) * (real x - real x0) \<and>
         y0 + (y1 - y0) / (real x1 - real x0) * (real x - real x0) \<le> hi"
proof -
  define d where "d = real x1 - real x0"
  define t where "t = (real x - real x0) / d"
  define w where "w = y1 - y0"
  have d: "1 \<le> d" using x by (simp add: d_def)
  have t: "0 \<le> t" "t \<le> 1" using x d by (simp_all add: t_def d_def)
  have O: "- OVERFLOW < 2 * lo" "2 * hi < OVERFLOW" "lo \<le> hi"
    using s by (simp_all add: safe_bounds_def)
  have w: "\<bar>w\<bar> < OVERFLOW" using y O by (simp add: w_def abs_if)
  have wd: "\<bar>w / d\<bar> \<le> \<bar>w\<bar>"
  proof -
    have "\<bar>w\<bar> * 1 \<le> \<bar>w\<bar> * d" using d by (intro mult_left_mono) simp_all
    then show ?thesis using d by (simp add: field_simps)
  qed
  have wt_eq: "w / d * (real x - real x0) = w * t" by (simp add: t_def)
  have wt: "\<bar>w / d * (real x - real x0)\<bar> \<le> \<bar>w\<bar>"
  proof -
    have "\<bar>w\<bar> * t \<le> \<bar>w\<bar> * 1" using t by (intro mult_left_mono) simp_all
    then have "\<bar>w * t\<bar> \<le> \<bar>w\<bar>" using t by (simp add: abs_mult)
    then show ?thesis by (simp only: wt_eq)
  qed
  have conv: "y0 + w / d * (real x - real x0) = (1 - t) * y0 + t * y1"
    unfolding wt_eq by (simp add: w_def algebra_simps)
  have "lo = (1 - t) * lo + t * lo" by (simp add: algebra_simps)
  also have "\<dots> \<le> (1 - t) * y0 + t * y1"
    using t y by (intro add_mono mult_left_mono) simp_all
  finally have lo: "lo \<le> y0 + w / d * (real x - real x0)" unfolding conv .
  have "(1 - t) * y0 + t * y1 \<le> (1 - t) * hi + t * hi"
    using t y by (intro add_mono mult_left_mono) simp_all
  also have "\<dots> = hi" by (simp add: algebra_simps)
  finally have hi: "y0 + w / d * (real x - real x0) \<le> hi" unfolding conv .
  have 1: "fsub (Num y1) (Num y0) = Num w"
    unfolding w_def by (rule fsub_in_range [OF s y])
  have "\<bar>w / d\<bar> < OVERFLOW" using w wd by linarith
  then have "fl (w / d) = Num (w / d)" by (rule fl_abs)
  then have 2: "fdiv (Num w) d = Num (w / d)" using d by simp
  have "\<bar>w / d * (real x - real x0)\<bar> < OVERFLOW" using w wt by linarith
  then have "fl (w / d * (real x - real x0)) = Num (w / d * (real x - real x0))"
    by (rule fl_abs)
  then have 3: "fmul (Num (w / d)) (real x - real x0) = Num (w / d * (real x - real x0))"
    by (simp only: fmul.simps)
  have "fl (w / d * (real x - real x0) + y0) = Num (w / d * (real x - real x0) + y0)"
    using lo hi O by (intro fl_finite) linarith+
  then have 4: "fadd (Num (w / d * (real x - real x0))) (Num y0) =
           Num (y0 + w / d * (real x - real x0))"
    by (simp only: fadd.simps add.commute)
  have "lerp x (x0, Num y0) (x1, Num y1) = Num (y0 + w / d * (real x - real x0))"
    unfolding lerp_def Let_def fst_conv snd_conv d_def [symmetric] 1 2 3 4 by simp
  then show ?thesis using lo hi by (simp add: w_def d_def)
qed

section \<open>Interpolation\<close>





lemma np_interp_in_range:
  "sorted_wrt (<) (map fst (p # ps)) \<Longrightarrow> safe_bounds lo hi \<Longrightarrow>
   \<forall>q \<in> set (p # ps). \<exists>v. snd q = Num v \<and> lo \<le> v \<and> v \<le> hi \<Longrightarrow>
   \<exists>w. np_interp x p ps = Num w \<and> lo \<le> w \<and> w \<le> hi"
proof (induction ps arbitrary: p)
  case Nil
  then show ?case by (cases p) auto
next
  case (Cons q ps)
  obtain x0 c0 where p: "p = (x0, c0)" by (cases p)
  obtain x1 c1 where q: "q = (x1, c1)" by (cases q)
  obtain y0 where y0: "c0 = Num y0" "lo \<le> y0" "y0 \<le> hi" using Cons.prems(3) p by auto
  obtain y1 where y1: "c1 = Num y1" "lo \<le> y1" "y1 \<le> hi" using Cons.prems(3) q by auto
  have IH: "\<exists>w. np_interp x q ps = Num w \<and> lo \<le> w \<and> w \<le> hi"
    using Cons.prems by (intro Cons.IH) simp_all
  show ?case
  proof (cases "x0 < x \<and> x < x1")
    case True
    then have a: "x0 < x" and b: "x < x1" by simp_all
    note l = lerp_finite [OF Cons.prems(2) y0(2,3) y1(2,3) a b]
    have "np_interp x p (q # ps) = lerp x (x0, Num y0) (x1, Num y1)"
      using True p q y0(1) y1(1) by simp
    then show ?thesis using l by simp
  next
    case False
    then show ?thesis using IH y0 p q by auto
  qed
qed

lemma valid_points_iff:
  "(i, c) \<in> set (valid_points xs) \<longleftrightarrow> i < length xs \<and> xs ! i = c \<and> is_number c"
proof
  assume "(i, c) \<in> set (valid_points xs)"
  then show "i < length xs \<and> xs ! i = c \<and> is_number c"
    by (auto simp: valid_points_def List.map_filter_def split: if_splits)
next
  assume a: "i < length xs \<and> xs ! i = c \<and> is_number c"
  let ?f = "\<lambda>i. if is_number (xs ! i) then Some (i, xs ! i) else None"
  have "i \<in> set (filter (\<lambda>i. ?f i \<noteq> None) [0..<length xs])" "the (?f i) = (i, c)"
    using a by simp_all
  then show "(i, c) \<in> set (valid_points xs)"
    unfolding valid_points_def List.map_filter_def set_map o_def by (rule rev_image_eqI [OF _ sym])
qed

lemma valid_points_sorted: "sorted_wrt (<) (map fst (valid_points xs))"
proof -
  let ?f = "\<lambda>i. if is_number (xs ! i) then Some (i, xs ! i) else None"
  let ?l = "filter (\<lambda>i. ?f i \<noteq> None) [0..<length xs]"
  have "map fst (valid_points xs) = map (\<lambda>i. fst (the (?f i))) ?l"
    by (simp add: valid_points_def List.map_filter_def)
  also have "\<dots> = ?l"
    by (rule map_idI) (auto split: if_splits)
  finally show ?thesis by (simp add: sorted_wrt_filter)
qed

lemma valid_points_Nil_iff: "valid_points xs = [] \<longleftrightarrow> (\<forall>c \<in> set xs. \<not> is_number c)"
proof
  assume "valid_points xs = []"
  then have "\<And>i c. (i, c) \<notin> set (valid_points xs)" by simp
  then show "\<forall>c \<in> set xs. \<not> is_number c"
    unfolding valid_points_iff by (metis in_set_conv_nth)
next
  assume a: "\<forall>c \<in> set xs. \<not> is_number c"
  show "valid_points xs = []"
  proof (cases "valid_points xs")
    case (Cons p ps)
    then have "(fst p, snd p) \<in> set (valid_points xs)" by simp
    then show ?thesis unfolding valid_points_iff using a by (metis nth_mem)
  qed simp
qed


lemma interpolate_keeps:
  "i < length xs \<Longrightarrow> xs ! i \<noteq> NaN \<Longrightarrow> interpolate xs ! i = xs ! i"
  by (simp add: interpolate_def isna_def split: list.splits)

lemma interpolate_fills:
  "i < length xs \<Longrightarrow> xs ! i = NaN \<Longrightarrow> valid_points xs = p # ps \<Longrightarrow>
   interpolate xs ! i = np_interp i p ps"
  by (simp add: interpolate_def isna_def)

lemma interpolate_all_missing:
  "\<forall>c \<in> set xs. \<not> is_number c \<Longrightarrow> interpolate xs = xs"
  by (simp add: interpolate_def valid_points_Nil_iff [symmetric])

lemma valid_points_Cons_sorted:
  "valid_points xs = p # ps \<Longrightarrow> sorted_wrt (<) (map fst (p # ps))"
  using valid_points_sorted [of xs] by simp

lemma valid_points_Cons_elem:
  assumes "valid_points xs = p # ps" "q \<in> set (p # ps)"
  shows "fst q < length xs \<and> xs ! fst q = snd q \<and> is_number (snd q)"
proof -
  have "(fst q, snd q) \<in> set (valid_points xs)" unfolding assms(1) using assms(2) by simp
  then show ?thesis unfolding valid_points_iff .
qed

lemma is_number_not_NaN: "is_number c \<Longrightarrow> c \<noteq> NaN"
  by (cases c) simp_all




lemma in_range_number:
  "in_range lo hi c \<Longrightarrow> is_number c \<Longrightarrow> \<exists>v. c = Num v \<and> lo \<le> v \<and> v \<le> hi"
  by (cases c) simp_all

lemma interpolate_nth_in_range:
  assumes "list_all (in_range lo hi) xs" "safe_bounds lo hi" "i < length xs"
  shows "in_range lo hi (interpolate xs ! i)"
    and "\<exists>c \<in> set xs. c \<noteq> NaN \<Longrightarrow> interpolate xs ! i \<noteq> NaN"
proof -
  have numbers: "\<exists>v. c = Num v \<and> lo \<le> v \<and> v \<le> hi" if "c \<in> set xs" "c \<noteq> NaN" for c
    using assms(1) that by (auto simp: list_all_iff in_range_cases)
  have filled: "\<exists>w. interpolate xs ! i = Num w \<and> lo \<le> w \<and> w \<le> hi"
    if vp: "valid_points xs = p # ps" and na: "xs ! i = NaN" for p ps
  proof -
    have "\<forall>q \<in> set (p # ps). \<exists>v. snd q = Num v \<and> lo \<le> v \<and> v \<le> hi"
    proof
      fix q assume q: "q \<in> set (p # ps)"
      note e = valid_points_Cons_elem [OF vp q]
      then have "snd q \<in> set xs" by (metis nth_mem)
      then show "\<exists>v. snd q = Num v \<and> lo \<le> v \<and> v \<le> hi"
        using e is_number_not_NaN by (intro numbers) auto
    qed
    then have "\<exists>w. np_interp i p ps = Num w \<and> lo \<le> w \<and> w \<le> hi"
      by (rule np_interp_in_range [OF valid_points_Cons_sorted [OF vp] assms(2)])
    then show ?thesis by (simp add: interpolate_fills [OF assms(3) na vp])
  qed
  have orig: "in_range lo hi (xs ! i)" using assms(1,3) by (simp add: list_all_length)
  show "in_range lo hi (interpolate xs ! i)"
  proof (cases "xs ! i = NaN")
    case True
    show ?thesis
    proof (cases "valid_points xs")
      case Nil
      then show ?thesis using True by (simp add: interpolate_def)
    next
      case (Cons p ps)
      then show ?thesis using filled [OF Cons True] by auto
    qed
  next
    case False
    then show ?thesis using orig assms(3) by (simp add: interpolate_keeps)
  qed
  show "interpolate xs ! i \<noteq> NaN" if ex: "\<exists>c \<in> set xs. c \<noteq> NaN"
  proof (cases "xs ! i = NaN")
    case True
    obtain c where c: "c \<in> set xs" "c \<noteq> NaN" using ex by blast
    then have "is_number c" using numbers [OF c] by auto
    then have "valid_points xs \<noteq> []" using c(1) by (auto simp: valid_points_Nil_iff)
    then obtain p ps where vp: "valid_points xs = p # ps" by (cases "valid_points xs") auto
    show ?thesis using filled [OF vp True] by auto
  next
    case False
    then show ?thesis using assms(3) by (simp add: interpolate_keeps)
  qed
qed

section \<open>The Masker and the set of columns\<close>

lemma mask_column_rows:
  "fst (mask_column col df) = df\<lparr>rows := map (mask_row col) (rows df)\<rparr>"
  by (simp add: mask_column_def set_column_def get_column_def Let_def zip_map2 zip_same_conv_map
      mask_row_def mask_cell_def o_def)

lemma mask_column_count:
  "snd (mask_column col df) =
   int (length (filter (\<lambda>c. invalid col (to_numeric c)) (get_column col df)))"
  by (simp add: mask_column_def Let_def filter_map o_def)

lemma columns_mask_loop: "columns (fst (mask_loop cs df st)) = columns df"
proof (induction cs arbitrary: df st)
  case Nil
  then show ?case by simp
next
  case (Cons col cs)
  have "columns (fst (mask_column col df)) = columns df"
    by (simp add: mask_column_rows)
  then show ?case
    using Cons.IH [of df st] Cons.IH [of "fst (mask_column col df)"]
    by (simp add: case_prod_beta Let_def)
qed

lemma columns_clean_and_mask: "columns (fst (clean_and_mask df)) = columns df"
  by (simp add: clean_and_mask_def columns_mask_loop)

lemma columns_stage1: "columns (stage1 col df) = columns df"
  by (simp add: stage1_def columns_set_column)

lemma columns_stage2: "columns (stage2 col df) = columns df"
  by (simp add: stage2_def columns_set_column)

lemma columns_stage3: "columns (stage3 col df) = columns df"
  by (simp add: stage3_def columns_set_column)

lemma columns_impute_column: "columns (fst (impute_column col df)) = columns df"
  by (simp add: impute_column_def Let_def columns_stage1 columns_stage2 columns_stage3)

lemma columns_impute_loop: "columns (fst (impute_loop cs df st)) = columns df"
proof (induction cs arbitrary: df st)
  case Nil
  then show ?case by simp
next
  case (Cons col cs)
  show ?case
    using Cons.IH [of df st] Cons.IH [of "fst (impute_column col df)"]
    by (simp add: case_prod_beta Let_def columns_impute_column)
qed

lemma columns_sort_values: "columns (sort_values df) = columns df"
  by (simp add: sort_values_def)

lemma columns_impute_data: "columns (fst (impute_data df)) = columns df"
  by (simp add: impute_data_def columns_impute_loop columns_sort_values)

lemma preprocess_file_cases:
  "preprocess_file df =
     (let absent = filter (\<lambda>c. c \<notin> set (columns df)) IMPUTE_COLUMNS;
          out = fst (impute_data (fst (clean_and_mask df)))
      in if absent \<noteq> [] then Inl (KeyError absent)
         else Inr (out, \<lparr>total_rows = length (rows out),
                         outliers_masked = snd (clean_and_mask df),
                         values_imputed = snd (impute_data (fst (clean_and_mask df))),
                         final_null_count =
                           map_of (map (\<lambda>c. (c, count_na (get_column c out))) IMPUTE_COLUMNS)\<rparr>))"
  by (simp add: preprocess_file_def case_prod_beta Let_def columns_impute_data
      columns_clean_and_mask)

section \<open>The Masker, cell by cell\<close>


lemma invalid_to_numeric: "invalid col (to_numeric c) = invalid col c"
  by (cases c) simp_all

lemma mask_cell_cases:
  "mask_cell col c = (if invalid col c then NaN else to_numeric c)"
  by (simp add: mask_cell_def invalid_to_numeric)

lemma mask_cell_idem: "mask_cell col (mask_cell col c) = mask_cell col c"
  by (cases c) (simp_all add: mask_cell_def)

lemma mask_cell_numeric: "mask_cell col c \<noteq> Unparseable s"
  by (cases c) (simp_all add: mask_cell_def)

lemma mask_cell_valid: "\<not> invalid col (mask_cell col c)"
  by (cases c) (simp_all add: mask_cell_def)

lemma mask_row_keys:
  "grid_id (mask_row col r) = grid_id r" "date (mask_row col r) = date r"
  "month (mask_row col r) = month r"
  by (simp_all add: mask_row_def)

lemma cells_mask_row:
  "cells (mask_row col r) c = (if c = col then mask_cell col (cells r c) else cells r c)"
  by (simp add: mask_row_def)

lemma fold_mask_row_keys:
  "grid_id (fold mask_row cs r) = grid_id r \<and> date (fold mask_row cs r) = date r \<and>
   month (fold mask_row cs r) = month r"
  by (induction cs arbitrary: r) (simp_all add: mask_row_keys)

lemma cells_fold_mask_row:
  "cells (fold mask_row cs r) c = (if c \<in> set cs then mask_cell c (cells r c) else cells r c)"
  by (induction cs arbitrary: r) (auto simp: cells_mask_row mask_cell_idem)

lemma rows_mask_loop:
  "rows (fst (mask_loop cs df st)) =
   map (fold mask_row (filter (\<lambda>c. c \<in> set (columns df)) cs)) (rows df)"
proof (induction cs arbitrary: df st)
  case Nil
  then show ?case by simp
next
  case (Cons col cs)
  show ?case
  proof (cases "col \<in> set (columns df)")
    case True
    let ?df = "fst (mask_column col df)"
    have c: "columns ?df = columns df" and r: "rows ?df = map (mask_row col) (rows df)"
      by (simp_all add: mask_column_rows)
    have "rows (fst (mask_loop (col # cs) df st)) =
          rows (fst (mask_loop cs ?df (st(col \<mapsto> snd (mask_column col df)))))"
      using True by (simp add: case_prod_beta Let_def)
    also have "\<dots> = map (fold mask_row (filter (\<lambda>c. c \<in> set (columns df)) cs)) (rows ?df)"
      by (simp add: Cons.IH c)
    finally show ?thesis using True by (simp add: r o_def)
  next
    case False
    then show ?thesis by (simp add: Cons.IH)
  qed
qed

lemma rows_clean_and_mask:
  "rows (fst (clean_and_mask df)) =
   map (fold mask_row (filter (\<lambda>c. c \<in> set (columns df)) IMPUTE_COLUMNS)) (rows df)"
  by (simp add: clean_and_mask_def rows_mask_loop)

lemma get_column_clean_and_mask:
  "get_column c (fst (clean_and_mask df)) =
   (if c \<in> set IMPUTE_COLUMNS \<and> c \<in> set (columns df)
    then map (mask_cell c) (get_column c df) else get_column c df)"
  by (auto simp: get_column_def rows_clean_and_mask cells_fold_mask_row)

lemma keys_clean_and_mask:
  "map grid_id (rows (fst (clean_and_mask df))) = map grid_id (rows df) \<and>
   map date (rows (fst (clean_and_mask df))) = map date (rows df) \<and>
   map month (rows (fst (clean_and_mask df))) = map month (rows df)"
  by (simp add: rows_clean_and_mask fold_mask_row_keys o_def)

lemma get_column_mask_column_other:
  "c \<noteq> col \<Longrightarrow> get_column c (fst (mask_column col df)) = get_column c df"
  by (simp add: mask_column_rows get_column_def cells_mask_row)

lemma stats_mask_loop:
  "distinct cs \<Longrightarrow>
   snd (mask_loop cs df st) c =
   (if c \<in> set cs \<and> c \<in> set (columns df)
    then Some (int (length (filter (invalid c) (get_column c df)))) else st c)"
proof (induction cs arbitrary: df st)
  case Nil
  then show ?case by simp
next
  case (Cons col cs)
  show ?case
  proof (cases "col \<in> set (columns df)")
    case True
    let ?df = "fst (mask_column col df)"
    let ?st = "st(col \<mapsto> snd (mask_column col df))"
    have c: "columns ?df = columns df" by (simp add: mask_column_rows)
    have eq: "snd (mask_loop (col # cs) df st) c = snd (mask_loop cs ?df ?st) c"
      using True by (simp add: case_prod_beta Let_def)
    have IH: "snd (mask_loop cs ?df ?st) c =
              (if c \<in> set cs \<and> c \<in> set (columns df)
               then Some (int (length (filter (invalid c) (get_column c ?df)))) else ?st c)"
      using Cons.prems by (simp add: Cons.IH c)
    show ?thesis
    proof (cases "c = col")
      case True
      then have "c \<notin> set cs" using Cons.prems by simp
      then have "snd (mask_loop cs ?df ?st) c = Some (snd (mask_column col df))"
        unfolding IH using True by simp
      then show ?thesis
        unfolding eq using True \<open>col \<in> set (columns df)\<close>
        by (simp add: mask_column_count invalid_to_numeric)
    next
      case False
      then show ?thesis
        unfolding eq IH by (simp add: get_column_mask_column_other)
    qed
  next
    case False
    then show ?thesis using Cons.prems by (auto simp: Cons.IH)
  qed
qed

lemma distinct_IMPUTE_COLUMNS: "distinct IMPUTE_COLUMNS"
  by (simp add: IMPUTE_COLUMNS_def)

lemma stats_clean_and_mask:
  "snd (clean_and_mask df) c =
   (if c \<in> set IMPUTE_COLUMNS \<and> c \<in> set (columns df)
    then Some (int (length (filter (invalid c) (get_column c df)))) else None)"
  by (simp add: clean_and_mask_def stats_mask_loop distinct_IMPUTE_COLUMNS)

section \<open>Tables without invalid values\<close>

lemma set_present_covariates:
  "set (present_covariates df) = set IMPUTE_COLUMNS \<inter> set (columns df)"
  by (auto simp: present_covariates_def)

lemma mask_row_id:
  "mask_cell col (cells r col) = cells r col \<Longrightarrow> mask_row col r = r"
  by (simp add: mask_row_def)

lemma fold_mask_row_id:
  "\<forall>c \<in> set cs. mask_cell c (cells r c) = cells r c \<Longrightarrow> fold mask_row cs r = r"
  by (induction cs) (simp_all add: mask_row_id)

lemma mask_cell_id:
  "\<not> invalid col c \<Longrightarrow> to_numeric c = c \<Longrightarrow> mask_cell col c = c"
  by (simp add: mask_cell_cases)

lemma clean_and_mask_id:
  assumes "no_invalid_values df" "numeric_covariates df"
  shows "fst (clean_and_mask df) = df"
proof -
  have "fold mask_row (present_covariates df) r = r" if "r \<in> set (rows df)" for r
  proof (rule fold_mask_row_id, rule ballI)
    fix c assume c: "c \<in> set (present_covariates df)"
    have "cells r c \<in> set (get_column c df)" using that by (simp add: get_column_def)
    then have "\<not> invalid c (cells r c)" "to_numeric (cells r c) = cells r c"
      using assms c by (auto simp: no_invalid_values_def numeric_covariates_def list_all_iff)
    then show "mask_cell c (cells r c) = cells r c" by (rule mask_cell_id)
  qed
  then have "rows (fst (clean_and_mask df)) = rows df"
    by (simp add: rows_clean_and_mask present_covariates_def [symmetric] map_idI)
  then show ?thesis
    by (intro frame.equality) (simp_all add: columns_clean_and_mask)
qed

lemma clean_and_mask_clean:
  "no_invalid_values (fst (clean_and_mask df)) \<and> numeric_covariates (fst (clean_and_mask df))"
proof -
  have "present_covariates (fst (clean_and_mask df)) = present_covariates df"
    by (simp add: present_covariates_def columns_clean_and_mask)
  moreover have "to_numeric (mask_cell c x) = mask_cell c x" for c x
    by (cases x) (simp_all add: mask_cell_def)
  ultimately show ?thesis
    by (auto simp: no_invalid_values_def numeric_covariates_def list_all_iff
        set_present_covariates get_column_clean_and_mask mask_cell_valid)
qed

lemma filter_invalid_empty:
  "list_all (\<lambda>c. \<not> invalid col c) xs \<Longrightarrow> filter (invalid col) xs = []"
  by (induction xs) simp_all

lemma map_mask_cell_valid:
  "list_all (\<lambda>c. \<not> invalid col c) xs \<Longrightarrow> map (mask_cell col) xs = map to_numeric xs"
  by (induction xs) (simp_all add: mask_cell_cases)

lemma no_invalid_valuesD:
  "no_invalid_values df \<Longrightarrow> col \<in> set IMPUTE_COLUMNS \<Longrightarrow> col \<in> set (columns df) \<Longrightarrow>
   list_all (\<lambda>c. \<not> invalid col c) (get_column col df)"
  by (simp add: no_invalid_values_def list_all_iff set_present_covariates)

section \<open>The three stages on a column\<close>

lemma length_interpolate_groups: "length (interpolate_groups grids xs) = length xs"
  by (simp add: interpolate_groups_def length_groupby_transform)

lemma interpolate_groups_nth:
  "i < length xs \<Longrightarrow>
   interpolate_groups grids xs ! i =
   interpolate (group_of grids xs (grids ! i)) ! rank_in_group grids i"
  by (simp add: interpolate_groups_def groupby_transform_nth)

lemma interpolate_groups_keeps:
  assumes "i < length xs" "length grids = length xs" "xs ! i \<noteq> NaN"
  shows "interpolate_groups grids xs ! i = xs ! i"
proof -
  have i: "i < length grids" using assms by simp
  have len: "length xs = length grids" using assms by simp
  note r = rank_in_group_less [OF i len] and n = group_of_nth_rank [OF i len]
  show ?thesis
    using assms r n by (simp add: interpolate_groups_nth interpolate_keeps)
qed

lemma fillna_nth:
  "i < length xs \<Longrightarrow> i < length ys \<Longrightarrow>
   fillna xs ys ! i = (if xs ! i = NaN then ys ! i else xs ! i)"
  by (simp add: fillna_def isna_def)

lemma length_seasonal_fill: "length (seasonal_fill months xs) = length xs"
  by (simp add: seasonal_fill_def Let_def length_fillna length_groupby_transform)

lemma seasonal_fill_nth:
  assumes "i < length xs" "length months = length xs"
  shows "seasonal_fill months xs ! i =
         (if xs ! i = NaN then median (group_of months xs (months ! i)) else xs ! i)"
proof -
  have i: "i < length months" using assms by simp
  have len: "length xs = length months" using assms by simp
  note r = rank_in_group_less [OF i len]
  have "groupby_transform months (\<lambda>g. replicate (length g) (median g)) xs ! i =
        median (group_of months xs (months ! i))"
    using assms(1) r by (simp add: groupby_transform_nth)
  then show ?thesis
    using assms(1) by (simp add: seasonal_fill_def Let_def fillna_nth length_groupby_transform)
qed

lemma length_global_fill: "length (global_fill xs) = length xs"
  by (simp add: global_fill_def length_fillna_value)

lemma global_fill_nth:
  "i < length xs \<Longrightarrow> global_fill xs ! i = (if xs ! i = NaN then median xs else xs ! i)"
  by (simp add: global_fill_def fillna_value_def isna_def)

lemma length_impute_series: "length (impute_series grids months xs) = length xs"
  by (simp add: impute_series_def length_global_fill length_seasonal_fill
      length_interpolate_groups)

lemma get_column_stage1:
  "get_column c (stage1 col df) =
   (if c = col then interpolate_groups (map grid_id (rows df)) (get_column col df)
    else get_column c df)"
  by (simp add: stage1_def get_set_column_same get_set_column_other
      length_interpolate_groups length_get_column)

lemma get_column_stage2:
  "get_column c (stage2 col df) =
   (if c = col then seasonal_fill (map month (rows df)) (get_column col df)
    else get_column c df)"
  by (simp add: stage2_def get_set_column_same get_set_column_other
      length_seasonal_fill length_get_column)

lemma get_column_stage3:
  "get_column c (stage3 col df) =
   (if c = col then global_fill (get_column col df) else get_column c df)"
  by (simp add: stage3_def get_set_column_same get_set_column_other
      length_global_fill length_get_column)

lemma keys_stage1:
  "map grid_id (rows (stage1 col df)) = map grid_id (rows df) \<and>
   map date (rows (stage1 col df)) = map date (rows df) \<and>
   map month (rows (stage1 col df)) = map month (rows df)"
  by (simp add: stage1_def keys_set_column length_interpolate_groups length_get_column)

lemma keys_stage2:
  "map grid_id (rows (stage2 col df)) = map grid_id (rows df) \<and>
   map date (rows (stage2 col df)) = map date (rows df) \<and>
   map month (rows (stage2 col df)) = map month (rows df)"
  by (simp add: stage2_def keys_set_column length_seasonal_fill length_get_column)

lemma keys_stage3:
  "map grid_id (rows (stage3 col df)) = map grid_id (rows df) \<and>
   map date (rows (stage3 col df)) = map date (rows df) \<and>
   map month (rows (stage3 col df)) = map month (rows df)"
  by (simp add: stage3_def keys_set_column length_global_fill length_get_column)

lemma fst_impute_column:
  "fst (impute_column col df) = stage3 col (stage2 col (stage1 col df))"
  by (simp add: impute_column_def Let_def)

lemma keys_impute_column:
  "map grid_id (rows (fst (impute_column col df))) = map grid_id (rows df) \<and>
   map date (rows (fst (impute_column col df))) = map date (rows df) \<and>
   map month (rows (fst (impute_column col df))) = map month (rows df)"
  by (simp add: fst_impute_column keys_stage1 keys_stage2 keys_stage3)

lemma get_column_impute_column:
  "get_column c (fst (impute_column col df)) =
   (if c = col
    then impute_series (map grid_id (rows df)) (map month (rows df)) (get_column col df)
    else get_column c df)"
  by (simp add: fst_impute_column get_column_stage1 get_column_stage2 get_column_stage3
      keys_stage1 keys_stage2 impute_series_def)

lemma snd_impute_column:
  "snd (impute_column col df) =
   count_na (get_column col df) -
   count_na (impute_series (map grid_id (rows df)) (map month (rows df)) (get_column col df))"
  using get_column_impute_column [of col col df]
  by (simp add: impute_column_def Let_def fst_impute_column)

section \<open>The loop of the Imputer\<close>

lemma impute_loop_Cons_present:
  "col \<in> set (columns df) \<Longrightarrow>
   impute_loop (col # cs) df st =
   impute_loop cs (fst (impute_column col df)) (st(col \<mapsto> snd (impute_column col df)))"
  by (simp add: case_prod_beta Let_def)

lemma impute_loop_Cons_absent:
  "col \<notin> set (columns df) \<Longrightarrow> impute_loop (col # cs) df st = impute_loop cs df st"
  by simp

lemma keys_impute_loop:
  "map grid_id (rows (fst (impute_loop cs df st))) = map grid_id (rows df) \<and>
   map date (rows (fst (impute_loop cs df st))) = map date (rows df) \<and>
   map month (rows (fst (impute_loop cs df st))) = map month (rows df)"
proof (induction cs arbitrary: df st)
  case Nil
  then show ?case by simp
next
  case (Cons col cs)
  show ?case
  proof (cases "col \<in> set (columns df)")
    case True
    show ?thesis
      unfolding impute_loop_Cons_present [OF True]
      using Cons.IH [of "fst (impute_column col df)" "st(col \<mapsto> snd (impute_column col df))"]
      by (simp only: keys_impute_column)
  next
    case False
    show ?thesis
      unfolding impute_loop_Cons_absent [OF False] by (rule Cons.IH)
  qed
qed

lemma get_column_impute_loop:
  "distinct cs \<Longrightarrow>
   get_column c (fst (impute_loop cs df st)) =
   (if c \<in> set cs \<and> c \<in> set (columns df)
    then impute_series (map grid_id (rows df)) (map month (rows df)) (get_column c df)
    else get_column c df)"
proof (induction cs arbitrary: df st)
  case Nil
  then show ?case by simp
next
  case (Cons col cs)
  show ?case
  proof (cases "col \<in> set (columns df)")
    case True
    let ?df = "fst (impute_column col df)"
    let ?st = "st(col \<mapsto> snd (impute_column col df))"
    have IH: "get_column c (fst (impute_loop cs ?df ?st)) =
              (if c \<in> set cs \<and> c \<in> set (columns df)
               then impute_series (map grid_id (rows df)) (map month (rows df)) (get_column c ?df)
               else get_column c ?df)"
      using Cons.prems by (simp add: Cons.IH columns_impute_column keys_impute_column)
    show ?thesis
    proof (cases "c = col")
      case True
      then have "c \<notin> set cs" using Cons.prems by simp
      then show ?thesis
        unfolding impute_loop_Cons_present [OF \<open>col \<in> set (columns df)\<close>] IH
        using True \<open>col \<in> set (columns df)\<close> by (simp add: get_column_impute_column)
    next
      case False
      then show ?thesis
        unfolding impute_loop_Cons_present [OF \<open>col \<in> set (columns df)\<close>] IH
        by (simp add: get_column_impute_column)
    qed
  next
    case False
    then show ?thesis
      unfolding impute_loop_Cons_absent [OF False]
      using Cons.prems by (auto simp: Cons.IH)
  qed
qed

lemma snd_impute_loop:
  "distinct cs \<Longrightarrow>
   snd (impute_loop cs df st) c =
   (if c \<in> set cs \<and> c \<in> set (columns df)
    then Some (count_na (get_column c df) -
               count_na (impute_series (map grid_id (rows df)) (map month (rows df))
                          (get_column c df)))
    else st c)"
proof (induction cs arbitrary: df st)
  case Nil
  then show ?case by simp
next
  case (Cons col cs)
  show ?case
  proof (cases "col \<in> set (columns df)")
    case True
    let ?df = "fst (impute_column col df)"
    let ?st = "st(col \<mapsto> snd (impute_column col df))"
    have IH: "snd (impute_loop cs ?df ?st) c =
              (if c \<in> set cs \<and> c \<in> set (columns df)
               then Some (count_na (get_column c ?df) -
                          count_na (impute_series (map grid_id (rows df)) (map month (rows df))
                                     (get_column c ?df)))
               else ?st c)"
      using Cons.prems by (simp add: Cons.IH columns_impute_column keys_impute_column)
    show ?thesis
    proof (cases "c = col")
      case True
      then have "c \<notin> set cs" using Cons.prems by simp
      then show ?thesis
        unfolding impute_loop_Cons_present [OF \<open>col \<in> set (columns df)\<close>] IH
        using True \<open>col \<in> set (columns df)\<close> by (simp add: snd_impute_column)
    next
      case False
      then show ?thesis
        unfolding impute_loop_Cons_present [OF \<open>col \<in> set (columns df)\<close>] IH
        by (simp add: get_column_impute_column)
    qed
  next
    case False
    then show ?thesis
      unfolding impute_loop_Cons_absent [OF False]
      using Cons.prems by (auto simp: Cons.IH)
  qed
qed

lemma keys_impute_data:
  "map grid_id (rows (fst (impute_data df))) = map grid_id (rows (sort_values df)) \<and>
   map date (rows (fst (impute_data df))) = map date (rows (sort_values df)) \<and>
   map month (rows (fst (impute_data df))) = map month (rows (sort_values df))"
  by (simp add: impute_data_def keys_impute_loop)

lemma length_rows_impute_data:
  "length (rows (fst (impute_data df))) = length (rows df)"
proof -
  have "length (map grid_id (rows (fst (impute_data df)))) =
        length (map grid_id (rows (sort_values df)))"
    by (simp only: keys_impute_data)
  then show ?thesis by (simp add: sort_values_def)
qed

lemma get_column_impute_data:
  "get_column c (fst (impute_data df)) =
   (if c \<in> set IMPUTE_COLUMNS \<and> c \<in> set (columns df)
    then impute_series (map grid_id (rows (sort_values df))) (map month (rows (sort_values df)))
           (get_column c (sort_values df))
    else get_column c (sort_values df))"
  by (simp add: impute_data_def get_column_impute_loop distinct_IMPUTE_COLUMNS
      columns_sort_values)

lemma snd_impute_data:
  "snd (impute_data df) c =
   (if c \<in> set IMPUTE_COLUMNS \<and> c \<in> set (columns df)
    then Some (count_na (get_column c (sort_values df)) -
               count_na (get_column c (fst (impute_data df))))
    else None)"
  by (simp add: impute_data_def snd_impute_loop get_column_impute_loop
      distinct_IMPUTE_COLUMNS columns_sort_values)

lemma count_na_sort_values:
  "count_na (get_column c (sort_values df)) = count_na (get_column c df)"
proof -
  have "filter isna (get_column c (sort_values df)) =
        map (\<lambda>r. cells r c) (sort_key sort_key_row (filter (\<lambda>r. isna (cells r c)) (rows df)))"
    by (simp add: get_column_def sort_values_def filter_map o_def filter_sort)
  then show ?thesis
    by (simp add: count_na_def get_column_def filter_map o_def)
qed

lemma set_get_column_sort_values:
  "set (get_column c (sort_values df)) = set (get_column c df)"
  by (simp add: get_column_def sort_values_def)

section \<open>The median\<close>

lemma float_key_inj:
  "is_number a \<Longrightarrow> is_number b \<Longrightarrow> float_key a = float_key b \<Longrightarrow> a = b"
  by (cases a; cases b) auto


lemma length_filter_mono:
  "(\<And>v. v \<in> set vs \<Longrightarrow> P v \<Longrightarrow> Q v) \<Longrightarrow> length (filter P vs) \<le> length (filter Q vs)"
  by (induction vs) auto




lemma has_rank_key_unique:
  assumes "has_rank vs k x" "has_rank vs k y"
  shows "float_key x = float_key y"
proof -
  have contra: False
    if lt: "float_key a < float_key b" and a: "has_rank vs k a" and b: "has_rank vs k b"
    for a b
  proof -
    have "length (filter (\<lambda>v. \<not> float_key a < float_key v) vs) \<le>
          length (filter (\<lambda>v. float_key v < float_key b) vs)"
      using lt by (intro length_filter_mono) auto
    then have "length (filter (\<lambda>v. \<not> float_key a < float_key v) vs) \<le> k"
      using b by (simp add: has_rank_def below_def)
    moreover have "length (filter (\<lambda>v. float_key a < float_key v) vs) +
          length (filter (\<lambda>v. \<not> float_key a < float_key v) vs) = length vs"
      by (rule sum_length_filter_compl)
    moreover have "length (filter (\<lambda>v. float_key a < float_key v) vs) + k + 1 \<le> length vs"
      using a by (simp add: has_rank_def above_def)
    ultimately show False by linarith
  qed
  show ?thesis
  proof (rule ccontr)
    assume "float_key x \<noteq> float_key y"
    then consider "float_key x < float_key y" | "float_key y < float_key x"
      by (auto simp: neq_iff)
    then show False using contra assms by cases blast+
  qed
qed

lemma has_rank_unique:
  assumes "list_all is_number vs" "has_rank vs k x" "has_rank vs k y"
  shows "x = y"
proof -
  have "is_number x" "is_number y"
    using assms by (auto simp: has_rank_def list_all_iff)
  then show ?thesis using has_rank_key_unique [OF assms(2,3)] by (rule float_key_inj)
qed

lemma is_median_unique:
  assumes "list_all is_number vs" "is_median vs m" "is_median vs m'"
  shows "m = m'"
proof (cases "vs = []")
  case True
  then show ?thesis using assms(2,3) by (simp add: is_median_def)
next
  case False
  show ?thesis
  proof (cases "odd (length vs)")
    case True
    then show ?thesis
      using assms False by (auto simp: is_median_def intro: has_rank_unique)
  next
    case False
    obtain a b where 1: "has_rank vs (length vs div 2 - 1) a" "has_rank vs (length vs div 2) b"
      "m = midpoint_average a b"
      using assms(2) \<open>vs \<noteq> []\<close> False by (auto simp: is_median_def list_ex_iff)
    obtain a' b' where 2: "has_rank vs (length vs div 2 - 1) a'" "has_rank vs (length vs div 2) b'"
      "m' = midpoint_average a' b'"
      using assms(3) \<open>vs \<noteq> []\<close> False by (auto simp: is_median_def list_ex_iff)
    have "a = a'" "b = b'"
      using has_rank_unique [OF assms(1)] 1 2 by blast+
    then show ?thesis using 1 2 by simp
  qed
qed

lemma median_sorted:
  "median xs =
     (let vs = sort_key float_key (filter is_number xs); n = length (filter is_number xs)
      in if n = 0 then NaN
         else if odd n then vs ! (n div 2)
         else midpoint_average (vs ! (n div 2 - 1)) (vs ! (n div 2)))"
  by (simp only: median_def Let_def midpoint_average_def length_sort)


lemma median_no_number: "\<forall>c \<in> set xs. \<not> is_number c \<Longrightarrow> median xs = NaN"
  by (simp add: median_def filter_False)



lemma fmul_not_text: "fmul x r \<noteq> Unparseable s"
  by (cases x) (auto simp: fl_def)

lemma median_nth:
  "median xs = NaN \<and> (\<forall>c \<in> set xs. \<not> is_number c) \<or>
   (\<exists>c \<in> set xs. is_number c \<and> median xs = c) \<or>
   (\<exists>a \<in> set xs. \<exists>b \<in> set xs. is_number a \<and> is_number b \<and>
      median xs = midpoint_average a b)"
proof -
  let ?ws = "filter is_number xs"
  let ?vs = "sort_key float_key ?ws"
  let ?n = "length ?ws"
  have mem: "?vs ! k \<in> set xs \<and> is_number (?vs ! k)" if "k < ?n" for k
  proof -
    have "?vs ! k \<in> set ?vs" using that by (intro nth_mem) simp
    then show ?thesis by simp
  qed
  show ?thesis
  proof (cases "?n = 0")
    case True
    then have "\<forall>c \<in> set xs. \<not> is_number c" by (simp add: filter_empty_conv)
    then show ?thesis by (simp add: median_no_number)
  next
    case False
    then have k: "?n div 2 < ?n" "?n div 2 - 1 < ?n" by linarith+
    have "?vs ! (?n div 2) \<in> set xs \<and> is_number (?vs ! (?n div 2))"
      "?vs ! (?n div 2 - 1) \<in> set xs \<and> is_number (?vs ! (?n div 2 - 1))"
      by (rule mem [OF k(1)], rule mem [OF k(2)])
    then show ?thesis
      using False unfolding median_sorted Let_def by (cases "odd ?n") auto
  qed
qed


lemma midpoint_average_in_range:
  assumes "safe_bounds lo hi" "lo \<le> a" "a \<le> hi" "lo \<le> b" "b \<le> hi"
  shows "midpoint_average (Num a) (Num b) = Num ((a + b) / 2)"
proof -
  have "\<bar>(a + b) / 2\<bar> < OVERFLOW"
    using assms by (simp add: safe_bounds_def abs_less_iff)
  then have "fdiv (Num (a + b)) 2 = Num ((a + b) / 2)"
    by (simp add: fl_abs)
  then show ?thesis
    unfolding midpoint_average_def fadd_in_range [OF assms] .
qed

lemma median_in_range:
  assumes "safe_bounds lo hi" "list_all (in_range lo hi) xs"
  shows "in_range lo hi (median xs)"
    and "\<exists>c \<in> set xs. c \<noteq> NaN \<Longrightarrow> median xs \<noteq> NaN"
proof -
  have num: "\<exists>v. c = Num v \<and> lo \<le> v \<and> v \<le> hi" if "c \<in> set xs" "c \<noteq> NaN" for c
    using assms(2) that by (auto simp: list_all_iff in_range_cases)
  have num': "\<exists>v. c = Num v \<and> lo \<le> v \<and> v \<le> hi" if "c \<in> set xs" "is_number c" for c
    using that is_number_not_NaN by (intro num) auto
  consider (none) "median xs = NaN" "\<forall>c \<in> set xs. \<not> is_number c"
    | (one) c where "c \<in> set xs" "is_number c" "median xs = c"
    | (two) a b where "a \<in> set xs" "b \<in> set xs" "is_number a" "is_number b"
        "median xs = midpoint_average a b"
    using median_nth [of xs] by blast
  then have "in_range lo hi (median xs) \<and> ((\<exists>c \<in> set xs. c \<noteq> NaN) \<longrightarrow> median xs \<noteq> NaN)"
  proof cases
    case none
    have "c = NaN" if "c \<in> set xs" for c
      using num [OF that] none(2) that by (cases "c = NaN") auto
    then show ?thesis using none(1) by auto
  next
    case one
    then show ?thesis using num' [OF one(1,2)] by auto
  next
    case two
    obtain v w where v: "a = Num v" "lo \<le> v" "v \<le> hi" and w: "b = Num w" "lo \<le> w" "w \<le> hi"
      using num' [OF two(1,3)] num' [OF two(2,4)] by blast
    have "median xs = Num ((v + w) / 2)"
      unfolding two(5) v(1) w(1)
      by (rule midpoint_average_in_range [OF assms(1) v(2,3) w(2,3)])
    then show ?thesis using v w by simp
  qed
  then show "in_range lo hi (median xs)"
    and "\<exists>c \<in> set xs. c \<noteq> NaN \<Longrightarrow> median xs \<noteq> NaN"
    by blast+
qed

section \<open>Sorting, and the report of preprocess_file\<close>

lemma insort_key_map_commute:
  "(\<And>x. k (f x) = k x) \<Longrightarrow>
   insort_key k (f x) (map f xs) = map f (insort_key k x xs)"
  by (induction xs) simp_all

lemma sort_key_map_commute:
  "(\<And>x. k (f x) = k x) \<Longrightarrow> sort_key k (map f xs) = map f (sort_key k xs)"
  by (induction xs) (simp_all add: insort_key_map_commute)

lemma sort_key_row_fold_mask_row: "sort_key_row (fold mask_row cs r) = sort_key_row r"
  by (simp add: sort_key_row_def fold_mask_row_keys)

lemma rows_sort_values_clean_and_mask:
  "rows (sort_values (fst (clean_and_mask df))) =
   map (fold mask_row (present_covariates df)) (rows (sort_values df))"
  by (simp add: sort_values_def rows_clean_and_mask present_covariates_def
      sort_key_map_commute sort_key_row_fold_mask_row)

lemma keys_sort_values_clean_and_mask:
  "map grid_id (rows (sort_values (fst (clean_and_mask df)))) = map grid_id (rows (sort_values df)) \<and>
   map date (rows (sort_values (fst (clean_and_mask df)))) = map date (rows (sort_values df)) \<and>
   map month (rows (sort_values (fst (clean_and_mask df)))) = map month (rows (sort_values df))"
  by (simp add: rows_sort_values_clean_and_mask fold_mask_row_keys o_def)

lemma get_column_sort_values_clean_and_mask:
  "get_column c (sort_values (fst (clean_and_mask df))) =
   (if c \<in> set IMPUTE_COLUMNS \<and> c \<in> set (columns df)
    then map (mask_cell c) (get_column c (sort_values df))
    else get_column c (sort_values df))"
  by (auto simp: get_column_def rows_sort_values_clean_and_mask cells_fold_mask_row
      set_present_covariates)

lemma map_of_tabulate:
  "map_of (map (\<lambda>c. (c, f c)) cs) c = (if c \<in> set cs then Some (f c) else None)"
  by (induction cs) auto

lemma preprocess_file_Inr:
  assumes "preprocess_file df = Inr (out, st)"
  shows "set IMPUTE_COLUMNS \<subseteq> set (columns df)"
    and "out = fst (impute_data (fst (clean_and_mask df)))"
    and "total_rows st = length (rows out)"
    and "outliers_masked st = snd (clean_and_mask df)"
    and "values_imputed st = snd (impute_data (fst (clean_and_mask df)))"
    and "final_null_count st c =
         (if c \<in> set IMPUTE_COLUMNS then Some (count_na (get_column c out)) else None)"
proof -
  let ?absent = "filter (\<lambda>c. c \<notin> set (columns df)) IMPUTE_COLUMNS"
  have e: "?absent = []"
    using assms unfolding preprocess_file_cases Let_def by (auto split: if_splits)
  then show "set IMPUTE_COLUMNS \<subseteq> set (columns df)"
    by (auto simp: filter_empty_conv)
  have r: "(out, st) =
      (fst (impute_data (fst (clean_and_mask df))),
       \<lparr>total_rows = length (rows (fst (impute_data (fst (clean_and_mask df))))),
        outliers_masked = snd (clean_and_mask df),
        values_imputed = snd (impute_data (fst (clean_and_mask df))),
        final_null_count =
          map_of (map (\<lambda>c. (c, count_na (get_column c (fst (impute_data (fst (clean_and_mask df)))))))
                    IMPUTE_COLUMNS)\<rparr>)"
    using assms unfolding preprocess_file_cases Let_def e by auto
  then show "out = fst (impute_data (fst (clean_and_mask df)))"
    and "total_rows st = length (rows out)"
    and "outliers_masked st = snd (clean_and_mask df)"
    and "values_imputed st = snd (impute_data (fst (clean_and_mask df)))"
    by simp_all
  from r show "final_null_count st c =
         (if c \<in> set IMPUTE_COLUMNS then Some (count_na (get_column c out)) else None)"
    by (simp add: map_of_tabulate)
qed

lemma preprocess_file_present:
  assumes "set IMPUTE_COLUMNS \<subseteq> set (columns df)"
  shows "\<exists>st. preprocess_file df = Inr (fst (impute_data (fst (clean_and_mask df))), st)"
proof -
  have "filter (\<lambda>c. c \<notin> set (columns df)) IMPUTE_COLUMNS = []"
    using assms by (auto simp: filter_empty_conv)
  then show ?thesis unfolding preprocess_file_cases Let_def by simp
qed

section \<open>Covariates with no value; the sample table\<close>

lemma no_number_group_of:
  "\<forall>c \<in> set xs. c = NaN \<Longrightarrow> \<forall>c \<in> set (group_of keys xs k). \<not> is_number c"
proof
  fix c assume "c \<in> set (group_of keys xs k)"
  then have "c \<in> set xs" using set_group_of [of keys xs k] by blast
  moreover assume "\<forall>c \<in> set xs. c = NaN"
  ultimately have "c = NaN" by blast
  then show "\<not> is_number c" by simp
qed

lemma interpolate_groups_all_missing:
  assumes "length grids = length xs" "\<forall>c \<in> set xs. c = NaN"
  shows "interpolate_groups grids xs = xs"
proof (rule nth_equalityI)
  show "length (interpolate_groups grids xs) = length xs"
    by (rule length_interpolate_groups)
next
  fix i assume "i < length (interpolate_groups grids xs)"
  then have i: "i < length grids" and ix: "i < length xs"
    using assms(1) by (simp_all add: length_interpolate_groups)
  have len: "length xs = length grids" using assms(1) by simp
  have "interpolate (group_of grids xs (grids ! i)) = group_of grids xs (grids ! i)"
    by (rule interpolate_all_missing [OF no_number_group_of [OF assms(2)]])
  then show "interpolate_groups grids xs ! i = xs ! i"
    by (simp add: interpolate_groups_nth [OF ix] group_of_nth_rank [OF i len])
qed

lemma seasonal_fill_all_missing:
  assumes "length months = length xs" "\<forall>c \<in> set xs. c = NaN"
  shows "seasonal_fill months xs = xs"
proof (rule nth_equalityI)
  show "length (seasonal_fill months xs) = length xs"
    by (rule length_seasonal_fill)
next
  fix i assume "i < length (seasonal_fill months xs)"
  then have ix: "i < length xs" by (simp add: length_seasonal_fill)
  have "median (group_of months xs (months ! i)) = NaN"
    by (rule median_no_number [OF no_number_group_of [OF assms(2)]])
  moreover have "xs ! i = NaN" using assms(2) ix by simp
  ultimately show "seasonal_fill months xs ! i = xs ! i"
    by (simp add: seasonal_fill_nth [OF ix assms(1)])
qed

lemma global_fill_all_missing:
  assumes "\<forall>c \<in> set xs. c = NaN"
  shows "global_fill xs = xs"
proof (rule nth_equalityI)
  show "length (global_fill xs) = length xs" by (rule length_global_fill)
next
  fix i assume "i < length (global_fill xs)"
  then have ix: "i < length xs" by (simp add: length_global_fill)
  have "median xs = NaN" using assms by (intro median_no_number) auto
  then show "global_fill xs ! i = xs ! i" using ix by (simp add: global_fill_nth)
qed


lemma impute_series_all_missing:
  assumes "length grids = length xs" "length months = length xs" "\<forall>c \<in> set xs. c = NaN"
  shows "impute_series grids months xs = xs"
  by (simp add: impute_series_def interpolate_groups_all_missing [OF assms(1,3)]
      seasonal_fill_all_missing [OF assms(2,3)] global_fill_all_missing [OF assms(3)])

lemma count_na_all_missing: "\<forall>c \<in> set xs. c = NaN \<Longrightarrow> count_na xs = int (length xs)"
  by (simp add: count_na_def isna_def)


lemma length_rows_clean_and_mask: "length (rows (fst (clean_and_mask df))) = length (rows df)"
  by (simp add: rows_clean_and_mask)

lemma impute_data_all_missing:
  assumes "\<forall>c \<in> set (get_column col df). c = NaN"
  shows "get_column col (fst (impute_data df)) = get_column col (sort_values df)"
proof -
  have "\<forall>c \<in> set (get_column col (sort_values df)). c = NaN"
    using assms by (simp add: set_get_column_sort_values)
  then show ?thesis
    by (simp add: get_column_impute_data impute_series_all_missing length_get_column)
qed

lemmas eval_simps = impute_series_def interpolate_groups_def groupby_transform_def group_of_def
  rank_in_group_def interpolate_def valid_points_def List.map_filter_def lerp_def Let_def
  fsub_def fl_small seasonal_fill_def global_fill_def fillna_def fillna_value_def median_def
  isna_def

lemma sample_columns:
  "columns sample_table =
     [''lst_celsius'', ''ndvi'', ''ndwi'', ''radar_vh'', ''rainfall_mm'', ''slope'']"
  by (simp add: sample_table_def)

lemma sample_present: "set IMPUTE_COLUMNS \<subseteq> set (columns sample_table)"
  by (simp add: sample_columns IMPUTE_COLUMNS_def)

lemma sample_sorted_rows:
  "rows (sort_values sample_table) =
     [\<lparr>grid_id = 1, date = Some 0, month = 1, cells = obs (Num 20) (Num 5)\<rparr>,
      \<lparr>grid_id = 1, date = Some 31, month = 2, cells = obs (Num (- 999)) (Num 5)\<rparr>,
      \<lparr>grid_id = 1, date = Some 59, month = 3, cells = obs (Num 24) (Num 5)\<rparr>,
      \<lparr>grid_id = 2, date = Some 0, month = 1, cells = obs NaN (Num 7)\<rparr>]"
  by (simp add: sort_values_def sample_table_def sort_key_row_def date_key_def)

lemma sample_covariate:
  "''lst_celsius'' \<in> set IMPUTE_COLUMNS" "''ndvi'' \<in> set IMPUTE_COLUMNS"
  "''lst_celsius'' \<in> set (columns sample_table)" "''ndvi'' \<in> set (columns sample_table)"
  "''slope'' \<notin> set IMPUTE_COLUMNS"
  by (simp_all add: sample_columns IMPUTE_COLUMNS_def)

lemma sample_masked_lst:
  "get_column ''lst_celsius'' (sort_values (fst (clean_and_mask sample_table))) =
     [Num 20, NaN, Num 24, NaN]"
proof -
  have "get_column ''lst_celsius'' (sort_values sample_table) =
          [Num 20, Num (- 999), Num 24, NaN]"
    by (simp add: get_column_def sample_sorted_rows obs_def)
  then show ?thesis
    unfolding get_column_sort_values_clean_and_mask
    by (simp add: sample_covariate mask_cell_def
        MIN_VALID_LST_def MAX_VALID_LST_def GEE_UNMASK_VALUE_def)
qed


lemma sample_keys:
  "map grid_id (rows (sort_values (fst (clean_and_mask sample_table)))) = [1, 1, 1, 2]"
  "map month (rows (sort_values (fst (clean_and_mask sample_table)))) = [1, 2, 3, 1]"
  by (simp_all add: keys_sort_values_clean_and_mask sample_sorted_rows)

lemma sample_stage1_series:
  "interpolate_groups [1, 1, 1, 2] [Num 20, NaN, Num 24, NaN] = [Num 20, Num 22, Num 24, NaN]"
  by (simp add: eval_simps)

lemma sample_series_lst:
  "impute_series [1, 1, 1, 2] [1, 2, 3, 1] [Num 20, NaN, Num 24, NaN] =
     [Num 20, Num 22, Num 24, Num 20]"
  unfolding impute_series_def sample_stage1_series by (simp add: eval_simps)

lemma sample_out_lst:
  "get_column ''lst_celsius'' (fst (impute_data (fst (clean_and_mask sample_table)))) =
     [Num 20, Num 22, Num 24, Num 20]"
  by (simp only: get_column_impute_data columns_clean_and_mask sample_covariate simp_thms
      if_True sample_masked_lst sample_keys sample_series_lst)

section \<open>Further columns of the sample table\<close>


lemma sample_slope: "get_column ''slope'' sample_table = [Num 7, Num 5, Num 5, Num 5]"
  by (simp add: get_column_def sample_table_def obs_def)

lemma sample_sorted_slope:
  "get_column ''slope'' (sort_values sample_table) = [Num 5, Num 5, Num 5, Num 7]"
  by (simp add: get_column_def sample_sorted_rows obs_def)

section \<open>Filled values stay in range\<close>

lemma in_range_Num_bounds:
  "list_all (in_range lo hi) xs \<Longrightarrow> Num v \<in> set xs \<Longrightarrow> lo \<le> v \<and> v \<le> hi"
  by (auto simp: list_all_iff)

lemma in_range_group_of:
  "list_all (in_range lo hi) xs \<Longrightarrow> list_all (in_range lo hi) (group_of keys xs k)"
  using set_group_of [of keys xs k] by (auto simp: list_all_iff)

lemma keeps_refl: "keeps xs xs"
  by (simp add: keeps_def list_all2_conv_all_nth)

lemma keeps_nth: "keeps xs ys \<Longrightarrow> i < length xs \<Longrightarrow> xs ! i \<noteq> NaN \<Longrightarrow> ys ! i = xs ! i"
  by (auto simp: keeps_def list_all2_conv_all_nth)

lemma keeps_length: "keeps xs ys \<Longrightarrow> length ys = length xs"
  by (auto simp: keeps_def list_all2_conv_all_nth)

lemma keeps_interpolate_groups:
  "length grids = length xs \<Longrightarrow> keeps xs (interpolate_groups grids xs)"
  by (simp add: keeps_def list_all2_conv_all_nth length_interpolate_groups
      interpolate_groups_keeps)

lemma keeps_seasonal_fill:
  "length months = length xs \<Longrightarrow> keeps xs (seasonal_fill months xs)"
  by (simp add: keeps_def list_all2_conv_all_nth length_seasonal_fill seasonal_fill_nth)

lemma keeps_global_fill: "keeps xs (global_fill xs)"
  by (simp add: keeps_def list_all2_conv_all_nth length_global_fill global_fill_nth)

lemma stage_ok_interpolate_groups:
  assumes "safe_bounds lo hi" "list_all (in_range lo hi) xs" "length grids = length xs"
  shows "stage_ok lo hi xs (interpolate_groups grids xs)"
  unfolding stage_ok_def list_all2_conv_all_nth
proof (intro conjI allI impI)
  show "length xs = length (interpolate_groups grids xs)"
    by (simp add: length_interpolate_groups)
next
  fix i assume ix: "i < length xs"
  then have i: "i < length grids" using assms(3) by simp
  have len: "length xs = length grids" using assms(3) by simp
  let ?g = "group_of grids xs (grids ! i)"
  note r = rank_in_group_less [OF i len]
  have "in_range lo hi (interpolate ?g ! rank_in_group grids i)"
    by (rule interpolate_nth_in_range(1) [OF in_range_group_of [OF assms(2)] assms(1) r])
  then have "in_range lo hi (interpolate_groups grids xs ! i)"
    by (simp add: interpolate_groups_nth [OF ix])
  then show "fills_within lo hi (xs ! i) (interpolate_groups grids xs ! i)"
    using interpolate_groups_keeps [OF ix assms(3)] by (simp add: fills_within_def)
qed

lemma stage_ok_seasonal_fill:
  assumes "safe_bounds lo hi" "list_all (in_range lo hi) xs" "length months = length xs"
  shows "stage_ok lo hi xs (seasonal_fill months xs)"
  unfolding stage_ok_def list_all2_conv_all_nth
proof (intro conjI allI impI)
  show "length xs = length (seasonal_fill months xs)"
    by (simp add: length_seasonal_fill)
next
  fix i assume ix: "i < length xs"
  have "in_range lo hi (median (group_of months xs (months ! i)))"
    by (rule median_in_range(1) [OF assms(1) in_range_group_of [OF assms(2)]])
  then show "fills_within lo hi (xs ! i) (seasonal_fill months xs ! i)"
    by (simp add: seasonal_fill_nth [OF ix assms(3)] fills_within_def)
qed

lemma stage_ok_global_fill:
  assumes "safe_bounds lo hi" "list_all (in_range lo hi) xs"
  shows "stage_ok lo hi xs (global_fill xs)"
  unfolding stage_ok_def list_all2_conv_all_nth
proof (intro conjI allI impI)
  show "length xs = length (global_fill xs)"
    by (simp add: length_global_fill)
next
  fix i assume ix: "i < length xs"
  have "in_range lo hi (median xs)" by (rule median_in_range(1) [OF assms])
  then show "fills_within lo hi (xs ! i) (global_fill xs ! i)"
    by (simp add: global_fill_nth [OF ix] fills_within_def)
qed

lemma stage_ok_within:
  assumes "stage_ok lo hi xs ys" "list_all (in_range lo hi) xs"
  shows "list_all (in_range lo hi) ys"
  using assms
  by (auto simp: stage_ok_def list_all2_conv_all_nth list_all_length fills_within_def
      split: if_splits)



section \<open>Temperatures and observed ranges\<close>

lemma temp_ok_in_range: "temp_ok c = in_range MIN_VALID_LST MAX_VALID_LST c"
  by (cases c) (auto simp: MIN_VALID_LST_def MAX_VALID_LST_def GEE_UNMASK_VALUE_def)

lemma mask_cell_lst_in_range:
  "in_range MIN_VALID_LST MAX_VALID_LST (mask_cell ''lst_celsius'' c)"
  by (cases c) (auto simp: mask_cell_def)

lemma safe_bounds_lst: "safe_bounds MIN_VALID_LST MAX_VALID_LST"
proof -
  have "(120 :: real) < 2 ^ 1000" by simp
  then have "(120 :: real) < OVERFLOW" using OVERFLOW_big by linarith
  then show ?thesis by (simp add: safe_bounds_def MIN_VALID_LST_def MAX_VALID_LST_def)
qed

lemma DBL_MAX_less: "DBL_MAX < OVERFLOW"
  by (simp add: DBL_MAX_def OVERFLOW_def)

lemma SAFE_MAX_nonneg: "0 \<le> SAFE_MAX"
  by (simp add: SAFE_MAX_def DBL_MAX_def)

lemma safe_bounds_SAFE_MAX: "safe_bounds (- SAFE_MAX) SAFE_MAX"
  using DBL_MAX_less SAFE_MAX_nonneg by (simp add: safe_bounds_def SAFE_MAX_def)

lemma safe_bounds_sub:
  assumes "safe_bounds a b" "a \<le> lo" "lo \<le> hi" "hi \<le> b"
  shows "safe_bounds lo hi"
  using assms by (simp add: safe_bounds_def)

lemma in_range_small: "\<bar>v\<bar> \<le> 2 ^ 1000 \<Longrightarrow> in_range (- SAFE_MAX) SAFE_MAX (Num v)"
proof -
  have "(2 :: real) ^ 1000 \<le> SAFE_MAX" by (simp add: SAFE_MAX_def DBL_MAX_def)
  then show "\<bar>v\<bar> \<le> 2 ^ 1000 \<Longrightarrow> in_range (- SAFE_MAX) SAFE_MAX (Num v)"
    by (simp add: abs_le_iff)
qed

lemma safe_column_small:
  "list_all (\<lambda>c. c = NaN \<or> (\<exists>v. c = Num v \<and> \<bar>v\<bar> \<le> 2 ^ 1000)) xs \<Longrightarrow> safe_column xs"
  unfolding safe_column_def list_all_iff using in_range_small by auto

lemma set_numbers: "set (numbers xs) = {v. Num v \<in> set xs}"
  unfolding numbers_def by (induction xs) (auto split: cell.splits)

lemma in_observed_range:
  assumes "list_all (in_range a b) xs" "x \<in> set xs"
  shows "in_range (Min (set (numbers xs))) (Max (set (numbers xs))) x"
proof (cases "x = NaN")
  case True
  then show ?thesis by simp
next
  case False
  then obtain v where v: "x = Num v"
    using assms by (auto simp: list_all_iff in_range_cases)
  then have "v \<in> set (numbers xs)" using assms(2) by (simp add: set_numbers)
  then show ?thesis using v by simp
qed

lemma observed_bounds_safe:
  assumes "safe_column xs" "numbers xs \<noteq> []"
  shows "safe_bounds (Min (set (numbers xs))) (Max (set (numbers xs)))"
proof -
  let ?N = "set (numbers xs)"
  have ne: "?N \<noteq> {}" using assms(2) by simp
  have bound: "- SAFE_MAX \<le> v \<and> v \<le> SAFE_MAX" if "v \<in> ?N" for v
    using that assms(1) by (auto simp: set_numbers safe_column_def list_all_iff)
  have "Min ?N \<in> ?N" "Max ?N \<in> ?N" using ne by simp_all
  then have "- SAFE_MAX \<le> Min ?N" "Max ?N \<le> SAFE_MAX" using bound by blast+
  moreover have "Min ?N \<le> Max ?N" using ne by simp
  ultimately show ?thesis
    using safe_bounds_sub [OF safe_bounds_SAFE_MAX] by blast
qed

lemma list_all_sort_values:
  "list_all P (get_column c (sort_values df)) = list_all P (get_column c df)"
  by (simp add: list_all_iff set_get_column_sort_values)

lemma impute_data_stages:
  assumes "col \<in> set IMPUTE_COLUMNS" "col \<in> set (columns df)"
  shows "get_column col (fst (impute_data df)) =
         get_column col (stage3 col (stage2 col (stage1 col (sort_values df))))"
  using assms
  by (simp add: get_column_impute_data get_column_stage1 get_column_stage2 get_column_stage3
      keys_stage1 keys_stage2 impute_series_def)

lemma stages_keep:
  shows "keeps (get_column col df) (get_column col (stage1 col df))"
    and "keeps (get_column col (stage1 col df)) (get_column col (stage2 col (stage1 col df)))"
    and "keeps (get_column col (stage2 col (stage1 col df)))
           (get_column col (stage3 col (stage2 col (stage1 col df))))"
proof -
  show "keeps (get_column col df) (get_column col (stage1 col df))"
    unfolding get_column_stage1
    using keeps_interpolate_groups [of "map grid_id (rows df)" "get_column col df"]
    by (simp add: length_get_column)
  show "keeps (get_column col (stage1 col df)) (get_column col (stage2 col (stage1 col df)))"
    unfolding get_column_stage2 [of col col]
    using keeps_seasonal_fill [of "map month (rows (stage1 col df))"
        "get_column col (stage1 col df)"]
    by (simp add: length_get_column)
  show "keeps (get_column col (stage2 col (stage1 col df)))
           (get_column col (stage3 col (stage2 col (stage1 col df))))"
    unfolding get_column_stage3 [of col col]
    using keeps_global_fill by simp
qed

lemma stages_ok:
  assumes "safe_bounds lo hi" "list_all (in_range lo hi) (get_column col df)"
  shows "stage_ok lo hi (get_column col df) (get_column col (stage1 col df))"
    and "stage_ok lo hi (get_column col (stage1 col df)) (get_column col (stage2 col (stage1 col df)))"
    and "stage_ok lo hi (get_column col (stage2 col (stage1 col df)))
           (get_column col (stage3 col (stage2 col (stage1 col df))))"
proof -
  show 1: "stage_ok lo hi (get_column col df) (get_column col (stage1 col df))"
    unfolding get_column_stage1
    using stage_ok_interpolate_groups [OF assms, of "map grid_id (rows df)"]
    by (simp add: length_get_column)
  note r1 = stage_ok_within [OF 1 assms(2)]
  show 2: "stage_ok lo hi (get_column col (stage1 col df))
             (get_column col (stage2 col (stage1 col df)))"
    unfolding get_column_stage2 [of col col]
    using stage_ok_seasonal_fill [OF assms(1) r1, of "map month (rows (stage1 col df))"]
    by (simp add: length_get_column)
  note r2 = stage_ok_within [OF 2 r1]
  show "stage_ok lo hi (get_column col (stage2 col (stage1 col df)))
           (get_column col (stage3 col (stage2 col (stage1 col df))))"
    unfolding get_column_stage3 [of col col]
    using stage_ok_global_fill [OF assms(1) r2] by simp
qed

section \<open>The masked columns\<close>

lemma masked_lst_temp_ok:
  assumes "''lst_celsius'' \<in> set (columns df)"
  shows "list_all temp_ok (get_column ''lst_celsius'' (fst (clean_and_mask df)))"
  using assms
  by (simp add: get_column_clean_and_mask IMPUTE_COLUMNS_def list_all_iff temp_ok_in_range
      mask_cell_lst_in_range)



lemma sample_masked_unsorted_lst:
  "get_column ''lst_celsius'' (fst (clean_and_mask sample_table)) = [NaN, Num 24, NaN, Num 20]"
proof -
  have "get_column ''lst_celsius'' sample_table = [NaN, Num 24, Num (- 999), Num 20]"
    by (simp add: get_column_def sample_table_def obs_def)
  then show ?thesis
    unfolding get_column_clean_and_mask
    by (simp add: sample_covariate mask_cell_def
        MIN_VALID_LST_def MAX_VALID_LST_def GEE_UNMASK_VALUE_def)
qed

section \<open>Columns of numbers and missing values\<close>










section \<open>Groups of a frame\<close>















section \<open>Covariates with at least one value\<close>



section \<open>The pipeline on a masked table, column by column\<close>

lemma stage1_masked:
  assumes "col \<in> set IMPUTE_COLUMNS" "col \<in> set (columns df)"
  shows "get_column col (stage1 col (sort_values (fst (clean_and_mask df)))) =
         interpolate_groups (map grid_id (rows (sort_values df)))
           (map (mask_cell col) (get_column col (sort_values df)))"
  using assms
  by (simp add: get_column_stage1 keys_sort_values_clean_and_mask
      get_column_sort_values_clean_and_mask)

lemma stage2_masked:
  assumes "col \<in> set IMPUTE_COLUMNS" "col \<in> set (columns df)"
  shows "get_column col (stage2 col (stage1 col (sort_values (fst (clean_and_mask df))))) =
         seasonal_fill (map month (rows (sort_values df)))
           (interpolate_groups (map grid_id (rows (sort_values df)))
              (map (mask_cell col) (get_column col (sort_values df))))"
  using assms
  by (simp add: get_column_stage2 keys_stage1 keys_sort_values_clean_and_mask stage1_masked)

lemma impute_data_masked:
  assumes "col \<in> set IMPUTE_COLUMNS" "col \<in> set (columns df)"
  shows "get_column col (fst (impute_data (fst (clean_and_mask df)))) =
         global_fill (seasonal_fill (map month (rows (sort_values df)))
           (interpolate_groups (map grid_id (rows (sort_values df)))
              (map (mask_cell col) (get_column col (sort_values df)))))"
  using assms
  by (simp add: get_column_impute_data columns_clean_and_mask impute_series_def
      keys_sort_values_clean_and_mask get_column_sort_values_clean_and_mask)







section \<open>The sample table after Stage 1\<close>

lemma sample_stage1_lst:
  "get_column ''lst_celsius''
     (stage1 ''lst_celsius'' (sort_values (fst (clean_and_mask sample_table)))) =
   [Num 20, Num 22, Num 24, NaN]"
  by (simp only: get_column_stage1 simp_thms if_True sample_masked_lst sample_keys
      sample_stage1_series)



section \<open>A grid observed at unevenly spaced dates\<close>








section \<open>A column with both infinities\<close>










section \<open>A month whose two values add up beyond the largest double\<close>

lemma overflow_covariate:
  "''ndvi'' \<in> set IMPUTE_COLUMNS" "''ndvi'' \<in> set (columns overflow_table)"
  by (simp_all add: IMPUTE_COLUMNS_def overflow_table_def)

lemma overflow_sorted_rows: "rows (sort_values overflow_table) = rows overflow_table"
  by (simp add: sort_values_def overflow_table_def sort_key_row_def date_key_def)

lemma overflow_keys:
  "map grid_id (rows (sort_values overflow_table)) = [1, 2, 3]"
  "map month (rows (sort_values overflow_table)) = [1, 1, 1]"
  unfolding overflow_sorted_rows by (simp_all add: overflow_table_def)

lemma overflow_masked:
  "map (mask_cell ''ndvi'') (get_column ''ndvi'' (sort_values overflow_table)) =
   [Num (2 ^ 1023), Num (3 * 2 ^ 1022), NaN]"
  unfolding get_column_def overflow_sorted_rows
  by (simp add: overflow_table_def mask_cell_def GEE_UNMASK_VALUE_def)

lemma overflow_unsorted:
  "get_column ''ndvi'' (fst (clean_and_mask overflow_table)) =
   [Num (2 ^ 1023), Num (3 * 2 ^ 1022), NaN]"
  unfolding get_column_clean_and_mask
  by (simp add: overflow_covariate get_column_def overflow_table_def mask_cell_def
      GEE_UNMASK_VALUE_def)

lemma overflow_stage1_series:
  "interpolate_groups [1, 2, 3] [Num (2 ^ 1023), Num (3 * 2 ^ 1022), NaN] =
   [Num (2 ^ 1023), Num (3 * 2 ^ 1022), NaN]"
  by (simp add: interpolate_groups_def groupby_transform_def group_of_def rank_in_group_def
      interpolate_def valid_points_def List.map_filter_def isna_def)

lemma overflow_sum: "fadd (Num (2 ^ 1023)) (Num (3 * 2 ^ 1022)) = PosInf"
  by (simp add: fl_def OVERFLOW_def)

lemma overflow_median: "median [Num (2 ^ 1023), Num (3 * 2 ^ 1022), NaN] = PosInf"
  by (simp add: median_def fl_def OVERFLOW_def)

lemma overflow_stage2_series:
  "seasonal_fill [1, 1, 1] [Num (2 ^ 1023), Num (3 * 2 ^ 1022), NaN] =
   [Num (2 ^ 1023), Num (3 * 2 ^ 1022), PosInf]"
  by (simp add: eval_simps fl_def OVERFLOW_def)

lemma overflow_stage3_series:
  "global_fill [Num (2 ^ 1023), Num (3 * 2 ^ 1022), PosInf] =
   [Num (2 ^ 1023), Num (3 * 2 ^ 1022), PosInf]"
  by (simp add: global_fill_def fillna_value_def isna_def)

section \<open>A table that exercises both fallback stages\<close>









lemma fallback_month4:
  "group_of [1, 2, 3, 2, 2, 4 :: nat] [Num 20, Num 22, Num 24, Num 30, NaN, NaN] 4 = [NaN]"
  by (simp add: group_of_def)

section \<open>A covariate with no value in a table with all five covariates\<close>

lemma all_missing_covariate_stays_missing:
  assumes "set IMPUTE_COLUMNS \<subseteq> set (columns df)" and "col \<in> set IMPUTE_COLUMNS"
    and "list_all isna (get_column col (fst (clean_and_mask df)))"
  shows "\<exists>out st. preprocess_file df = Inr (out, st) \<and>
           list_all isna (get_column col out) \<and>
           final_null_count st col = Some (int (total_rows st)) \<and>
           total_rows st = length (rows df)"
proof -
  let ?m = "fst (clean_and_mask df)"
  let ?out = "fst (impute_data ?m)"
  obtain st where p: "preprocess_file df = Inr (?out, st)"
    using preprocess_file_present [OF assms(1)] by blast
  note r = preprocess_file_Inr [OF p]
  have all: "\<forall>c \<in> set (get_column col ?m). c = NaN"
    using assms(3) by (simp add: list_all_iff isna_def)
  have out: "get_column col ?out = get_column col (sort_values ?m)"
    by (rule impute_data_all_missing [OF all])
  have all': "\<forall>c \<in> set (get_column col ?out). c = NaN"
    using all by (simp add: out set_get_column_sort_values)
  have rows: "total_rows st = length (rows df)"
    by (simp add: r(3) length_rows_impute_data length_rows_clean_and_mask)
  have "count_na (get_column col ?out) = int (length (rows df))"
    by (simp add: count_na_all_missing [OF all'] length_get_column length_rows_impute_data
        length_rows_clean_and_mask)
  then have "final_null_count st col = Some (int (total_rows st))"
    unfolding r(6) using assms(2) rows by simp
  moreover have "list_all isna (get_column col ?out)"
    using all' by (simp add: list_all_iff isna_def)
  ultimately show ?thesis using p rows by blast
qed

section \<open>The claims\<close>






text \<open>
  Claim C3. If the table has a temperature column, every temperature cell is missing or
  a number between 10 and 60 (hence not the sentinel -999) after masking, after Stage 1,
  after Stage 2 and in the output of the Imputer, which is the cleaned table that
  \<open>preprocess_file\<close> returns.
\<close>

theorem temperature_bounds:
  assumes "''lst_celsius'' \<in> set (columns df)"
  shows "(let M = fst (clean_and_mask df);
              S1 = stage1 ''lst_celsius'' (sort_values M);
              S2 = stage2 ''lst_celsius'' S1
          in list_all temp_ok (get_column ''lst_celsius'' M) \<and>
             list_all temp_ok (get_column ''lst_celsius'' S1) \<and>
             list_all temp_ok (get_column ''lst_celsius'' S2) \<and>
             list_all temp_ok (get_column ''lst_celsius'' (fst (impute_data M)))) \<and>
         (\<forall>out st. preprocess_file df = Inr (out, st) \<longrightarrow>
            list_all temp_ok (get_column ''lst_celsius'' out))"
proof -
  let ?c = "''lst_celsius''"
  let ?M = "fst (clean_and_mask df)"
  let ?S = "sort_values ?M"
  have m: "list_all temp_ok (get_column ?c ?M)"
    by (rule masked_lst_temp_ok [OF assms])
  then have s: "list_all (in_range MIN_VALID_LST MAX_VALID_LST) (get_column ?c ?S)"
    by (simp add: list_all_sort_values temp_ok_in_range [abs_def])
  note ok = stages_ok [OF safe_bounds_lst s]
  note r1 = stage_ok_within [OF ok(1) s]
  note r2 = stage_ok_within [OF ok(2) r1]
  note r3 = stage_ok_within [OF ok(3) r2]
  have "?c \<in> set IMPUTE_COLUMNS" by (simp add: IMPUTE_COLUMNS_def)
  then have out: "get_column ?c (fst (impute_data ?M)) =
      get_column ?c (stage3 ?c (stage2 ?c (stage1 ?c ?S)))"
    using assms by (intro impute_data_stages) (simp_all add: columns_clean_and_mask)
  have o: "list_all temp_ok (get_column ?c (fst (impute_data ?M)))"
    using r3 by (simp add: out temp_ok_in_range [abs_def])
  moreover have "list_all temp_ok (get_column ?c out)"
    if "preprocess_file df = Inr (out, st)" for out st
    using preprocess_file_Inr(2) [OF that] o by simp
  ultimately show ?thesis
    using m r1 r2 by (simp add: Let_def temp_ok_in_range [abs_def])
qed

theorem temperature_bounds_witness:
  "''lst_celsius'' \<in> set (columns sample_table) \<and>
   get_column ''lst_celsius'' (fst (impute_data (fst (clean_and_mask sample_table)))) =
     [Num 20, Num 22, Num 24, Num 20] \<and>
   list_all temp_ok (get_column ''lst_celsius'' (fst (clean_and_mask sample_table))) \<and>
   list_all temp_ok
     (get_column ''lst_celsius'' (fst (impute_data (fst (clean_and_mask sample_table)))))"
  using temperature_bounds [OF sample_covariate(3)]
  by (simp add: Let_def sample_covariate(3) sample_out_lst)




text \<open>
  Claim C5. Whenever \<open>preprocess_file\<close> produces a report, then for every covariate
  the number of missing values before imputation (that is, in the masked table) equals
  the imputed count of the report plus its still-missing count.
\<close>

theorem count_conservation:
  assumes "preprocess_file df = Inr (out, st)" and "col \<in> set IMPUTE_COLUMNS"
  shows "\<exists>imputed still.
           values_imputed st col = Some imputed \<and>
           final_null_count st col = Some still \<and>
           count_na (get_column col (fst (clean_and_mask df))) = imputed + still"
proof -
  note r = preprocess_file_Inr [OF assms(1)]
  have present: "col \<in> set (columns (fst (clean_and_mask df)))"
    using r(1) assms(2) by (auto simp: columns_clean_and_mask)
  have "values_imputed st col =
        Some (count_na (get_column col (sort_values (fst (clean_and_mask df)))) -
              count_na (get_column col out))"
    unfolding r(5) snd_impute_data using assms(2) present by (simp add: r(2))
  moreover have "final_null_count st col = Some (count_na (get_column col out))"
    unfolding r(6) using assms(2) by simp
  ultimately show ?thesis by (simp add: count_na_sort_values)
qed

theorem count_conservation_witness:
  "\<exists>out st. preprocess_file sample_table = Inr (out, st) \<and>
     values_imputed st ''lst_celsius'' = Some 2 \<and>
     final_null_count st ''lst_celsius'' = Some 0 \<and>
     count_na (get_column ''lst_celsius'' (fst (clean_and_mask sample_table))) = 2"
proof -
  obtain st where p:
    "preprocess_file sample_table = Inr (fst (impute_data (fst (clean_and_mask sample_table))), st)"
    using preprocess_file_present [OF sample_present] by blast
  have n: "count_na (get_column ''lst_celsius'' (fst (clean_and_mask sample_table))) = 2"
    unfolding count_na_sort_values [symmetric, of "''lst_celsius''" "fst (clean_and_mask sample_table)"]
      sample_masked_lst
    by (simp add: count_na_def isna_def)
  have f: "final_null_count st ''lst_celsius'' = Some 0"
    unfolding preprocess_file_Inr(6) [OF p] sample_out_lst
    by (simp add: sample_covariate count_na_def isna_def)
  from count_conservation [OF p sample_covariate(1)] n f
  have "values_imputed st ''lst_celsius'' = Some 2" by auto
  with p n f show ?thesis by blast
qed

text \<open>
  Claim C6. A table from which a covariate column is absent should be processed without
  raising, the absent covariate skipped and left out of the report. The Masker and the
  Imputer do skip it, but \<open>preprocess_file\<close> then evaluates \<open>df[IMPUTE_COLUMNS]\<close> for
  the final null counts, which raises \<open>KeyError\<close>: on a table without the \<open>ndvi\<close>
  column no report is produced at all.
\<close>

theorem preprocess_file_absent_covariate_raises:
  "snd (clean_and_mask table_without_ndvi) ''ndvi'' = None \<and>
   snd (impute_data (fst (clean_and_mask table_without_ndvi))) ''ndvi'' = None \<and>
   preprocess_file table_without_ndvi = Inl (KeyError [''ndvi''])"
  by (simp add: preprocess_file_cases stats_clean_and_mask snd_impute_data
      columns_clean_and_mask table_without_ndvi_def IMPUTE_COLUMNS_def)

text \<open>
  Claim C7. A covariate that has no value at all after masking should stay missing
  through the three stages and be reported with a still-missing count equal to the
  number of rows, without an error. The stages do leave it missing, but the call raises
  whenever another covariate column is absent from the table: on a table without the
  \<open>ndwi\<close> column whose \<open>ndvi\<close> values are all the sentinel, \<open>ndvi\<close> is entirely missing
  after masking and after imputation, and \<open>preprocess_file\<close> raises \<open>KeyError\<close> at
  \<open>df[IMPUTE_COLUMNS]\<close> instead of reporting the count.
\<close>

theorem all_missing_covariate_raises_without_ndwi:
  "get_column ''ndvi'' (fst (clean_and_mask table_without_ndwi)) = [NaN, NaN] \<and>
   get_column ''ndvi'' (fst (impute_data (fst (clean_and_mask table_without_ndwi)))) =
     [NaN, NaN] \<and>
   preprocess_file table_without_ndwi = Inl (KeyError [''ndwi''])"
proof -
  have c: "''ndvi'' \<in> set IMPUTE_COLUMNS" "''ndvi'' \<in> set (columns table_without_ndwi)"
    by (simp_all add: IMPUTE_COLUMNS_def table_without_ndwi_def)
  have m: "get_column ''ndvi'' (fst (clean_and_mask table_without_ndwi)) = [NaN, NaN]"
    unfolding get_column_clean_and_mask
    by (simp add: c get_column_def table_without_ndwi_def mask_cell_def GEE_UNMASK_VALUE_def)
  have "rows (sort_values table_without_ndwi) = rows table_without_ndwi"
    by (simp add: sort_values_def table_without_ndwi_def sort_key_row_def date_key_def)
  then have s: "get_column ''ndvi'' (sort_values (fst (clean_and_mask table_without_ndwi))) =
      [NaN, NaN]"
    unfolding get_column_sort_values_clean_and_mask
    by (simp add: c get_column_def table_without_ndwi_def mask_cell_def GEE_UNMASK_VALUE_def)
  have out: "get_column ''ndvi'' (fst (impute_data (fst (clean_and_mask table_without_ndwi)))) =
      [NaN, NaN]"
    by (simp add: impute_data_all_missing m s)
  have p: "preprocess_file table_without_ndwi = Inl (KeyError [''ndwi''])"
    by (simp add: preprocess_file_cases columns_clean_and_mask table_without_ndwi_def
        IMPUTE_COLUMNS_def)
  show ?thesis using m out p by (intro conjI)
qed

text \<open>
  Claim C8, as stated, fails: a table with no sentinel and no out-of-range temperature
  value may still hold a covariate cell that is not a number. The Masker reports zero
  masked values for it and yet turns that cell into a missing value.
\<close>

theorem masker_changes_unparseable_cell:
  "no_invalid_values unparseable_table \<and>
   snd (clean_and_mask unparseable_table) ''ndvi'' = Some 0 \<and>
   get_column ''ndvi'' unparseable_table = [Unparseable ''abc''] \<and>
   get_column ''ndvi'' (fst (clean_and_mask unparseable_table)) = [NaN] \<and>
   fst (clean_and_mask unparseable_table) \<noteq> unparseable_table"
proof -
  have c: "get_column ''ndvi'' unparseable_table = [Unparseable ''abc'']"
    by (simp add: get_column_def unparseable_table_def)
  have p: "present_covariates unparseable_table = [''ndvi'']"
    by (simp add: present_covariates_def unparseable_table_def IMPUTE_COLUMNS_def)
  have n: "no_invalid_values unparseable_table"
    unfolding no_invalid_values_def p by (simp add: c)
  have m: "''ndvi'' \<in> set IMPUTE_COLUMNS \<and> ''ndvi'' \<in> set (columns unparseable_table)"
    by (simp add: unparseable_table_def IMPUTE_COLUMNS_def)
  have s: "snd (clean_and_mask unparseable_table) ''ndvi'' = Some 0"
    by (simp add: stats_clean_and_mask m c)
  have g: "get_column ''ndvi'' (fst (clean_and_mask unparseable_table)) = [NaN]"
    by (simp add: get_column_clean_and_mask m c mask_cell_def)
  have "fst (clean_and_mask unparseable_table) \<noteq> unparseable_table"
    using c g by auto
  then show ?thesis using n s c g by simp
qed

text \<open>
  Claim C8, amended. On a table with no sentinel and no out-of-range temperature value
  the Masker reports a masked count of zero for every covariate column of the table
  (and no count for an absent one), and every column is left as it was except that a
  covariate cell that is not a number becomes missing; if every covariate cell is a
  number or missing, the table is unchanged. A table the Masker has already processed
  is such a table: masking it again changes nothing and counts nothing.
\<close>

theorem masker_idempotent:
  "(no_invalid_values df \<longrightarrow>
      (\<forall>col. snd (clean_and_mask df) col =
              (if col \<in> set IMPUTE_COLUMNS \<and> col \<in> set (columns df) then Some 0 else None)) \<and>
      (\<forall>col. get_column col (fst (clean_and_mask df)) =
              (if col \<in> set IMPUTE_COLUMNS \<and> col \<in> set (columns df)
               then map to_numeric (get_column col df) else get_column col df)) \<and>
      (numeric_covariates df \<longrightarrow> fst (clean_and_mask df) = df)) \<and>
   fst (clean_and_mask (fst (clean_and_mask df))) = fst (clean_and_mask df) \<and>
   (\<forall>col. snd (clean_and_mask (fst (clean_and_mask df))) col =
           (if col \<in> set IMPUTE_COLUMNS \<and> col \<in> set (columns df) then Some 0 else None))"
proof -
  have counts: "snd (clean_and_mask d) col =
      (if col \<in> set IMPUTE_COLUMNS \<and> col \<in> set (columns d) then Some 0 else None)"
    if "no_invalid_values d" for d col
    using no_invalid_valuesD [OF that, of col]
    by (simp add: stats_clean_and_mask filter_invalid_empty)
  have cols: "get_column col (fst (clean_and_mask d)) =
      (if col \<in> set IMPUTE_COLUMNS \<and> col \<in> set (columns d)
       then map to_numeric (get_column col d) else get_column col d)"
    if "no_invalid_values d" for d col
    using no_invalid_valuesD [OF that, of col]
    by (simp add: get_column_clean_and_mask map_mask_cell_valid)
  note again = clean_and_mask_clean [of df]
  have "fst (clean_and_mask (fst (clean_and_mask df))) = fst (clean_and_mask df)"
    using again by (simp add: clean_and_mask_id)
  moreover have "\<forall>col. snd (clean_and_mask (fst (clean_and_mask df))) col =
      (if col \<in> set IMPUTE_COLUMNS \<and> col \<in> set (columns df) then Some 0 else None)"
    using again counts [of "fst (clean_and_mask df)"] by (simp add: columns_clean_and_mask)
  ultimately show ?thesis
    using counts [of df] cols [of df] clean_and_mask_id [of df] by blast
qed

theorem masker_idempotent_witness:
  "no_invalid_values clean_table \<and> numeric_covariates clean_table \<and>
   fst (clean_and_mask clean_table) = clean_table \<and>
   snd (clean_and_mask clean_table) ''lst_celsius'' = Some 0 \<and>
   snd (clean_and_mask clean_table) ''ndvi'' = Some 0 \<and>
   snd (clean_and_mask clean_table) ''ndwi'' = None"
proof -
  have p: "present_covariates clean_table = [''lst_celsius'', ''ndvi'']"
    by (simp add: present_covariates_def clean_table_def IMPUTE_COLUMNS_def)
  have n: "no_invalid_values clean_table"
    unfolding no_invalid_values_def p
    by (simp add: get_column_def clean_table_def
        MIN_VALID_LST_def MAX_VALID_LST_def GEE_UNMASK_VALUE_def)
  have m: "numeric_covariates clean_table"
    unfolding numeric_covariates_def p
    by (simp add: get_column_def clean_table_def)
  have c: "columns clean_table = [''lst_celsius'', ''ndvi'', ''slope'']"
    by (simp add: clean_table_def)
  show ?thesis
    using n m masker_idempotent [of clean_table]
    by (simp add: c IMPUTE_COLUMNS_def)
qed

text \<open>
  Claim C9. A column that is not one of the five covariates (slope and elevation in
  particular) keeps every value through the Masker and the Imputer: the Masker leaves
  the column as it is, and in the output of the Imputer the column, like the grid
  identifiers and the months, is that of the input table with its rows sorted by grid
  identifier and date, the sorted rows being a rearrangement of the input rows.
\<close>

theorem other_columns_pass_through:
  assumes "c \<notin> set IMPUTE_COLUMNS"
  shows "get_column c (fst (clean_and_mask df)) = get_column c df \<and>
         get_column c (fst (impute_data (fst (clean_and_mask df)))) =
           get_column c (sort_values df) \<and>
         map grid_id (rows (fst (impute_data (fst (clean_and_mask df))))) =
           map grid_id (rows (sort_values df)) \<and>
         map month (rows (fst (impute_data (fst (clean_and_mask df))))) =
           map month (rows (sort_values df)) \<and>
         mset (rows (sort_values df)) = mset (rows df)"
proof -
  have "mset (rows (sort_values df)) = mset (rows df)"
    by (simp add: sort_values_def)
  then show ?thesis
    using assms
    by (simp add: get_column_clean_and_mask get_column_impute_data
        get_column_sort_values_clean_and_mask keys_impute_data keys_sort_values_clean_and_mask)
qed

theorem other_columns_pass_through_witness:
  "''slope'' \<notin> set IMPUTE_COLUMNS \<and>
   get_column ''slope'' sample_table = [Num 7, Num 5, Num 5, Num 5] \<and>
   get_column ''slope'' (fst (clean_and_mask sample_table)) = [Num 7, Num 5, Num 5, Num 5] \<and>
   get_column ''slope'' (fst (impute_data (fst (clean_and_mask sample_table)))) =
     [Num 5, Num 5, Num 5, Num 7]"
  using other_columns_pass_through [OF sample_covariate(5), of sample_table]
  by (simp add: sample_slope sample_sorted_slope sample_covariate(5))

text \<open>
  Claim C10, as stated, fails: a value written by Stage 2 can lie outside the range of
  the observed values. When the two values of a month are \<open>2^1023\<close> and \<open>3 * 2^1022\<close>,
  their sum is beyond the largest double, so the midpoint average that the median of
  the month takes is \<open>inf\<close>, and \<open>inf\<close> is what the missing cell of that month receives.
\<close>

theorem month_median_overflows:
  "get_column ''ndvi'' (fst (clean_and_mask overflow_table)) =
     [Num (2 ^ 1023), Num (3 * 2 ^ 1022), NaN] \<and>
   Min (set (numbers (get_column ''ndvi'' (fst (clean_and_mask overflow_table))))) = 2 ^ 1023 \<and>
   Max (set (numbers (get_column ''ndvi'' (fst (clean_and_mask overflow_table))))) =
     3 * 2 ^ 1022 \<and>
   get_column ''ndvi''
     (stage1 ''ndvi'' (sort_values (fst (clean_and_mask overflow_table)))) =
     [Num (2 ^ 1023), Num (3 * 2 ^ 1022), NaN] \<and>
   get_column ''ndvi''
     (stage2 ''ndvi'' (stage1 ''ndvi'' (sort_values (fst (clean_and_mask overflow_table))))) =
     [Num (2 ^ 1023), Num (3 * 2 ^ 1022), PosInf] \<and>
   get_column ''ndvi'' (fst (impute_data (fst (clean_and_mask overflow_table)))) =
     [Num (2 ^ 1023), Num (3 * 2 ^ 1022), PosInf] \<and>
   \<not> in_range (2 ^ 1023) (3 * 2 ^ 1022) PosInf"
proof -
  have s1: "get_column ''ndvi''
      (stage1 ''ndvi'' (sort_values (fst (clean_and_mask overflow_table)))) =
      [Num (2 ^ 1023), Num (3 * 2 ^ 1022), NaN]"
    by (simp only: stage1_masked [OF overflow_covariate] overflow_keys overflow_masked
        overflow_stage1_series)
  have s2: "get_column ''ndvi''
      (stage2 ''ndvi'' (stage1 ''ndvi'' (sort_values (fst (clean_and_mask overflow_table))))) =
      [Num (2 ^ 1023), Num (3 * 2 ^ 1022), PosInf]"
    by (simp only: stage2_masked [OF overflow_covariate] overflow_keys overflow_masked
        overflow_stage1_series overflow_stage2_series)
  have out: "get_column ''ndvi'' (fst (impute_data (fst (clean_and_mask overflow_table)))) =
      [Num (2 ^ 1023), Num (3 * 2 ^ 1022), PosInf]"
    by (simp only: impute_data_masked [OF overflow_covariate] overflow_keys overflow_masked
        overflow_stage1_series overflow_stage2_series overflow_stage3_series)
  have n: "set (numbers [Num (2 ^ 1023), Num (3 * 2 ^ 1022), NaN]) = {2 ^ 1023, 3 * 2 ^ 1022}"
    by (simp add: numbers_def)
  have lo: "Min {2 ^ 1023, 3 * 2 ^ 1022 :: real} = 2 ^ 1023" by simp
  have hi: "Max {2 ^ 1023, 3 * 2 ^ 1022 :: real} = 3 * 2 ^ 1022" by simp
  show ?thesis
    unfolding s1 s2 out overflow_unsorted n lo hi by simp
qed

text \<open>
  Claim C10, amended. For a covariate column of the table, each of the three stages
  leaves every cell that is not missing as it is, and the column that \<open>impute_data\<close>
  returns is the result of the three stages on the sorted masked table. If moreover the
  values of the column after masking are finite, of magnitude at most half the largest
  double, and not all missing, and lo and hi are the least and the greatest of them,
  then a cell that was missing before a stage is after it still missing or a number
  between lo and hi (in exact arithmetic: the rounding of the double operations is not
  modelled).
\<close>

theorem imputed_values_within_observed_range_finite:
  assumes "col \<in> set IMPUTE_COLUMNS" and "col \<in> set (columns df)"
  shows "let M = fst (clean_and_mask df);
             S = sort_values M;
             S1 = stage1 col S;
             S2 = stage2 col S1;
             S3 = stage3 col S2;
             lo = Min (set (numbers (get_column col M)));
             hi = Max (set (numbers (get_column col M)))
         in keeps (get_column col S) (get_column col S1) \<and>
            keeps (get_column col S1) (get_column col S2) \<and>
            keeps (get_column col S2) (get_column col S3) \<and>
            get_column col (fst (impute_data M)) = get_column col S3 \<and>
            (numbers (get_column col M) \<noteq> [] \<and> safe_column (get_column col M) \<longrightarrow>
               stage_ok lo hi (get_column col S) (get_column col S1) \<and>
               stage_ok lo hi (get_column col S1) (get_column col S2) \<and>
               stage_ok lo hi (get_column col S2) (get_column col S3))"
proof -
  let ?M = "fst (clean_and_mask df)"
  let ?S = "sort_values ?M"
  let ?lo = "Min (set (numbers (get_column col ?M)))"
  let ?hi = "Max (set (numbers (get_column col ?M)))"
  have out: "get_column col (fst (impute_data ?M)) =
        get_column col (stage3 col (stage2 col (stage1 col ?S)))"
    using assms by (intro impute_data_stages) (simp_all add: columns_clean_and_mask)
  have ok: "stage_ok ?lo ?hi (get_column col ?S) (get_column col (stage1 col ?S)) \<and>
      stage_ok ?lo ?hi (get_column col (stage1 col ?S))
        (get_column col (stage2 col (stage1 col ?S))) \<and>
      stage_ok ?lo ?hi (get_column col (stage2 col (stage1 col ?S)))
        (get_column col (stage3 col (stage2 col (stage1 col ?S))))"
    if some: "numbers (get_column col ?M) \<noteq> []" and safe: "safe_column (get_column col ?M)"
  proof -
    have "list_all (in_range ?lo ?hi) (get_column col ?M)"
      using safe in_observed_range [of "- SAFE_MAX" SAFE_MAX "get_column col ?M"]
      by (simp add: safe_column_def list_all_iff)
    then have s: "list_all (in_range ?lo ?hi) (get_column col ?S)"
      by (simp add: list_all_sort_values)
    show ?thesis
      using stages_ok [OF observed_bounds_safe [OF safe some] s] by simp
  qed
  show ?thesis
    unfolding Let_def using stages_keep [of col ?S] out ok by blast
qed

theorem imputed_values_within_observed_range_finite_witness:
  "numbers (get_column ''lst_celsius'' (fst (clean_and_mask sample_table))) = [24, 20] \<and>
   safe_column (get_column ''lst_celsius'' (fst (clean_and_mask sample_table))) \<and>
   get_column ''lst_celsius'' (sort_values (fst (clean_and_mask sample_table))) =
     [Num 20, NaN, Num 24, NaN] \<and>
   get_column ''lst_celsius'' (fst (impute_data (fst (clean_and_mask sample_table)))) =
     [Num 20, Num 22, Num 24, Num 20] \<and>
   stage_ok 20 24
     (get_column ''lst_celsius'' (sort_values (fst (clean_and_mask sample_table))))
     (get_column ''lst_celsius''
        (stage1 ''lst_celsius'' (sort_values (fst (clean_and_mask sample_table))))) \<and>
   stage_ok 20 24
     (get_column ''lst_celsius''
        (stage2 ''lst_celsius''
           (stage1 ''lst_celsius'' (sort_values (fst (clean_and_mask sample_table))))))
     (get_column ''lst_celsius'' (fst (impute_data (fst (clean_and_mask sample_table)))))"
proof -
  have n: "numbers (get_column ''lst_celsius'' (fst (clean_and_mask sample_table))) = [24, 20]"
    by (simp add: sample_masked_unsorted_lst numbers_def)
  have t: "safe_column (get_column ''lst_celsius'' (fst (clean_and_mask sample_table)))"
    unfolding sample_masked_unsorted_lst by (rule safe_column_small) simp
  show ?thesis
    using imputed_values_within_observed_range_finite [OF sample_covariate(1,3)] t
    by (simp add: Let_def n sample_masked_lst sample_out_lst)
qed

end
